theory Spec2Isabelle
  imports Main "HOL-Library.Sublist"
begin

section \<open>Strings of the host language\<close>

text \<open>
  A TypeScript string is modelled as a \<open>string\<close>: one \<open>char\<close> per UTF-16 code unit,
  for text whose code units lie in U+0000..U+00FF. \<open>s.startsWith(p)\<close> is
  \<open>prefix p s\<close>.
\<close>

abbreviation nl :: char where
  "nl \<equiv> CHR 0x0A"

abbreviation tab :: char where
  "tab \<equiv> CHR 0x09"

definition is_space :: "char \<Rightarrow> bool" where
  \<comment> \<open>the white space and line terminators that \<open>trim()\<close> strips, below U+0100\<close>
  "is_space c \<longleftrightarrow>
     c \<in> {CHR 0x09, CHR 0x0A, CHR 0x0B, CHR 0x0C, CHR 0x0D, CHR 0x20, CHR 0xA0}"

definition is_digit :: "char \<Rightarrow> bool" where
  \<comment> \<open>the class \<open>\d\<close> of a regular expression\<close>
  "is_digit c \<longleftrightarrow> c \<in> set ''0123456789''"

definition is_hspace :: "char \<Rightarrow> bool" where
  \<comment> \<open>the class \<open>[ \t]\<close>\<close>
  "is_hspace c \<longleftrightarrow> c = CHR '' '' \<or> c = tab"

definition trim :: "string \<Rightarrow> string" where
  "trim s = rev (dropWhile is_space (rev (dropWhile is_space s)))"

fun includes_str :: "string \<Rightarrow> string \<Rightarrow> bool" where
  \<comment> \<open>\<open>s.includes(p)\<close>\<close>
  "includes_str [] p = (p = [])"
| "includes_str (c # cs) p = (prefix p (c # cs) \<or> includes_str cs p)"

fun split_str :: "string \<Rightarrow> string \<Rightarrow> string list" where
  \<comment> \<open>\<open>s.split(sep)\<close> for a string separator: the occurrences of \<open>sep\<close> are taken
      from left to right, each search resuming after the previous occurrence\<close>
  "split_str [] sep = (if sep = [] then [] else [[]])"
| "split_str (c # cs) sep =
     (if sep = [] then [c] # split_str cs sep
      else if prefix sep (c # cs) then [] # split_str (drop (length sep) (c # cs)) sep
      else (case split_str cs sep of [] \<Rightarrow> [[c]] | p # ps \<Rightarrow> (c # p) # ps))"

fun join_str :: "string list \<Rightarrow> string \<Rightarrow> string" where
  \<comment> \<open>\<open>xs.join(sep)\<close>\<close>
  "join_str [] sep = []"
| "join_str [x] sep = x"
| "join_str (x # y # ys) sep = x @ sep @ join_str (y # ys) sep"

fun toString :: "nat \<Rightarrow> string" where
  \<comment> \<open>\<open>n.toString()\<close> of a non-negative integer\<close>
  "toString n =
     (if n < 10 then [''0123456789'' ! n]
      else toString (n div 10) @ [''0123456789'' ! (n mod 10)])"

declare toString.simps [simp del]

definition slice_last :: "nat \<Rightarrow> string \<Rightarrow> string" where
  \<comment> \<open>\<open>s.slice(-k)\<close>\<close>
  "slice_last k s = drop (length s - k) s"

definition sliceString :: "string \<Rightarrow> nat \<Rightarrow> nat \<Rightarrow> string" where
  \<comment> \<open>\<open>doc.sliceString(from, to)\<close>\<close>
  "sliceString doc from to = take (to - from) (drop from doc)"


section \<open>Configuration\<close>

definition SEPARATOR :: string where
  "SEPARATOR = '' <br> ''"

definition header :: string where
  "header = ''---'' @ [nl] @ ''cssclasses: fg-database'' @ [nl] @ ''---'' @ [nl] @ [nl]
     @ ''| ID | Claim | Relevance |'' @ [nl] @ ''|---|---|---|'' @ [nl]"


section \<open>Data handling (class FineGrainPlugin)\<close>

text \<open>
  The vault is seen through the one file the plugin stores rows in: \<open>None\<close> when
  \<open>getRelevanceFile()\<close> finds no file, \<open>Some content\<close> otherwise.
\<close>

type_synonym relFile = "string option"

definition sanitize :: "string \<Rightarrow> string" where
  "sanitize text =
     trim (map (\<lambda>c. if c = nl then CHR '' '' else c)
            (map (\<lambda>c. if c = CHR ''|'' then CHR ''-'' else c) text))"

definition row_pat :: "string \<Rightarrow> string" where
  \<comment> \<open>the template \<open>| ${id} |\<close> that every store operation searches for\<close>
  "row_pat cid = ''| '' @ cid @ '' |''"

definition marker :: "string \<Rightarrow> string" where
  \<comment> \<open>the template \<open>(fg:${id})\<close>\<close>
  "marker cid = ''(fg:'' @ cid @ '')''"

definition createLink :: "nat \<Rightarrow> relFile \<Rightarrow> string \<Rightarrow> string \<Rightarrow> string \<times> relFile \<times> string" where
  \<comment> \<open>\<open>now\<close> is the value of \<open>Date.now()\<close>; the result is the new id, the store file
      after the call, and the text that replaces the editor's selection\<close>
  "createLink now relFile claim relevance =
     (let cid = slice_last 6 (toString now);
          safeClaim = sanitize claim;
          safeRelevance = sanitize relevance;
          row = ''| '' @ cid @ '' | '' @ safeClaim @ '' | '' @ safeRelevance @ '' |'' @ [nl]
      in (cid,
          (case relFile of
             Some content \<Rightarrow> Some (content @ row)
           | None \<Rightarrow> Some (header @ row)),
          '' (fg:'' @ cid @ '') ''))"

definition decodeRow :: "string \<Rightarrow> (string \<times> string list) option" where
  \<comment> \<open>the body of the loop of \<open>getRelevanceData\<close> for a line that contains the pattern:
      \<open>None\<close> when the loop goes on to the next line\<close>
  "decodeRow line =
     (let parts = map trim (split_str line ''|'') in
      if length parts \<ge> 4 then
        (let rawRelevance = parts ! 3 in
         if rawRelevance = [] then Some (parts ! 2, [])
         else Some (parts ! 2,
                    filter (\<lambda>s. length (trim s) > 0) (split_str rawRelevance SEPARATOR)))
      else None)"

fun find_row :: "string \<Rightarrow> string list \<Rightarrow> (string \<times> string list) option" where
  \<comment> \<open>\<open>for (let line of lines)\<close> in \<open>getRelevanceData\<close>\<close>
  "find_row cid [] = None"
| "find_row cid (line # lines) =
     (if includes_str line (row_pat cid) then
        (case decodeRow line of
           Some r \<Rightarrow> Some r
         | None \<Rightarrow> find_row cid lines)
      else find_row cid lines)"

definition getRelevanceData :: "string \<Rightarrow> relFile \<Rightarrow> (string \<times> string list) option" where
  "getRelevanceData cid relFile =
     (case relFile of
        None \<Rightarrow> None
      | Some content \<Rightarrow> find_row cid (split_str content [nl]))"

definition append_line :: "string \<Rightarrow> string \<Rightarrow> string \<Rightarrow> string" where
  \<comment> \<open>the callback of \<open>lines.map\<close> in \<open>appendRelevance\<close>\<close>
  "append_line cid safeText line =
     (if includes_str line (row_pat cid) then
        (let parts = split_str line ''|'' in
         if length parts \<ge> 4 then
           (let current = trim (parts ! 3);
                separator = (if length current > 0 then SEPARATOR else '' '')
            in join_str (parts[3 := '' '' @ current @ separator @ safeText @ '' '']) ''|'')
         else line)
      else line)"

definition appendRelevance :: "string \<Rightarrow> string \<Rightarrow> relFile \<Rightarrow> relFile" where
  "appendRelevance cid newText relFile =
     (case relFile of
        None \<Rightarrow> None
      | Some content \<Rightarrow>
          (let lines = split_str content [nl];
               safeText = sanitize newText;
               newLines = map (append_line cid safeText) lines
           in Some (join_str newLines [nl])))"

definition splice1 :: "int \<Rightarrow> string list \<Rightarrow> string list" where
  \<comment> \<open>\<open>if (i >= 0 && i < xs.length) xs.splice(i, 1)\<close>, for an integer \<open>i\<close>\<close>
  "splice1 i xs =
     (if 0 \<le> i \<and> i < int (length xs) then take (nat i) xs @ drop (Suc (nat i)) xs else xs)"

definition remove_line :: "string \<Rightarrow> int \<Rightarrow> string \<Rightarrow> string" where
  \<comment> \<open>the callback of \<open>lines.map\<close> in \<open>removeRelevanceItem\<close>\<close>
  "remove_line cid indexToRemove line =
     (if includes_str line (row_pat cid) then
        (let parts = split_str line ''|'' in
         if length parts \<ge> 4 then
           (let relArray = filter (\<lambda>s. length (trim s) > 0) (split_str (parts ! 3) SEPARATOR);
                relArray' = splice1 indexToRemove relArray
            in join_str (parts[3 := '' '' @ join_str relArray' SEPARATOR @ '' '']) ''|'')
         else line)
      else line)"

definition removeRelevanceItem :: "string \<Rightarrow> int \<Rightarrow> relFile \<Rightarrow> relFile" where
  "removeRelevanceItem cid indexToRemove relFile =
     (case relFile of
        None \<Rightarrow> None
      | Some content \<Rightarrow>
          (let lines = split_str content [nl];
               newLines = map (remove_line cid indexToRemove) lines
           in Some (join_str newLines [nl])))"


subsection \<open>Deleting a connection\<close>

definition delete_rows :: "string \<Rightarrow> relFile \<Rightarrow> relFile" where
  \<comment> \<open>step 1 of \<open>deleteConnection\<close>: remove from the database\<close>
  "delete_rows cid relFile =
     (case relFile of
        None \<Rightarrow> None
      | Some content \<Rightarrow>
          (let lines = split_str content [nl];
               newLines = filter (\<lambda>line. \<not> includes_str line (row_pat cid)) lines
           in Some (join_str newLines [nl])))"

text \<open>
  \<open>lineText.replace(new RegExp(`[ \\t]*\\(fg:${id}\\)`, 'g'), "")\<close>, for an id without
  characters that are special in a regular expression (every id the plugin makes or
  scans is a string of digits). \<open>match_tag cid s\<close> matches the expression at the start
  of \<open>s\<close> and returns what follows the match: the star takes the whole run of blanks,
  since the character after it in the expression is not a blank.
\<close>

definition match_tag :: "string \<Rightarrow> string \<Rightarrow> string option" where
  "match_tag cid s =
     (let r = dropWhile is_hspace s in
      if prefix (marker cid) r then Some (drop (length (marker cid)) r) else None)"

function replace_tags :: "string \<Rightarrow> string \<Rightarrow> string" where
  "replace_tags cid [] = []"
| "replace_tags cid (c # cs) =
     (case match_tag cid (c # cs) of
        Some rest \<Rightarrow> replace_tags cid rest
      | None \<Rightarrow> c # replace_tags cid cs)"
  by pat_completeness auto
termination
proof (relation "measure (\<lambda>(cid, s). length s)")
  fix cid :: string and c :: char and cs rest :: string
  assume "match_tag cid (c # cs) = Some rest"
  then have "rest = drop (length (marker cid)) (dropWhile is_hspace (c # cs))"
    by (simp add: match_tag_def Let_def split: if_splits)
  moreover have "length (dropWhile is_hspace (c # cs)) \<le> length (c # cs)"
    by (rule length_dropWhile_le)
  ultimately show "((cid, rest), (cid, c # cs)) \<in> measure (\<lambda>(cid, s). length s)"
    by (simp add: marker_def)
qed simp_all

record editor =
  doc_lines :: "string list"
  cursor :: "nat \<times> nat"

fun strip_loop :: "string \<Rightarrow> nat \<Rightarrow> string list \<Rightarrow> nat \<times> nat \<Rightarrow> string list \<times> (nat \<times> nat)" where
  \<comment> \<open>\<open>for (let i = 0; i < lineCount; i++)\<close> from line \<open>i\<close> on: the lines from \<open>i\<close> and
      the cursor, after the loop\<close>
  "strip_loop cid i [] currentCursor = ([], currentCursor)"
| "strip_loop cid i (lineText # rest) currentCursor =
     (if includes_str lineText (marker cid) then
        (let newLineText = replace_tags cid lineText in
         (newLineText # rest,
          if fst currentCursor = i then (i, min (snd currentCursor) (length newLineText))
          else currentCursor))
      else (let (rest', c') = strip_loop cid (Suc i) rest currentCursor in (lineText # rest', c')))"

definition strip_marker :: "string \<Rightarrow> editor option \<Rightarrow> editor option" where
  \<comment> \<open>step 2 of \<open>deleteConnection\<close>: remove the tag from the editor of the active view,
      if there is one\<close>
  "strip_marker cid view =
     (case view of
        None \<Rightarrow> None
      | Some ed \<Rightarrow>
          (let (ls, c) = strip_loop cid 0 (doc_lines ed) (cursor ed)
           in Some (ed\<lparr>doc_lines := ls, cursor := c\<rparr>)))"

definition deleteConnection :: "string \<Rightarrow> relFile \<Rightarrow> editor option \<Rightarrow> relFile \<times> editor option" where
  "deleteConnection cid relFile view = (delete_rows cid relFile, strip_marker cid view)"


section \<open>Editor extension\<close>

text \<open>
  \<open>match_marker s\<close> matches \<open>/\(fg:(\d+)\)/\<close> at the start of \<open>s\<close> and returns the
  group and what follows the match: the plus takes the whole run of digits, since the
  character after it in the expression is not a digit.
\<close>

definition match_marker :: "string \<Rightarrow> (string \<times> string) option" where
  "match_marker s =
     (if prefix ''(fg:'' s then
        (let t = drop 4 s; ds = takeWhile is_digit t; r = dropWhile is_digit t in
         if ds \<noteq> [] \<and> prefix '')'' r then Some (ds, drop 1 r) else None)
      else None)"

function exec_loop :: "nat \<Rightarrow> string \<Rightarrow> (nat \<times> string \<times> string) list" where
  \<comment> \<open>\<open>while ((match = regex.exec(text)))\<close> with the sticky \<open>lastIndex\<close> of a global
      expression: \<open>exec_loop i s\<close> searches the rest \<open>s\<close> of the text from index \<open>i\<close> and
      lists \<open>(match.index, match[0], match[1])\<close> of every match\<close>
  "exec_loop i [] = []"
| "exec_loop i (c # cs) =
     (case match_marker (c # cs) of
        Some (ds, rest) \<Rightarrow> (i, marker ds, ds) # exec_loop (i + length (marker ds)) rest
      | None \<Rightarrow> exec_loop (Suc i) cs)"
  by pat_completeness auto
termination
proof (relation "measure (\<lambda>(i, s). length s)")
  fix i :: nat and c :: char and cs ds rest :: string and x :: "string \<times> string"
  assume "match_marker (c # cs) = Some x" and "(ds, rest) = x"
  then have "rest = drop 1 (dropWhile is_digit (drop 4 (c # cs)))"
    by (auto simp: match_marker_def Let_def split: if_splits)
  moreover have "length (dropWhile is_digit (drop 4 (c # cs))) \<le> length (drop 4 (c # cs))"
    by (rule length_dropWhile_le)
  ultimately show "((i + length (marker ds), rest), (i, c # cs)) \<in> measure (\<lambda>(i, s). length s)"
    by simp
qed simp_all

definition buildDecorations :: "string \<Rightarrow> (nat \<times> nat) list \<Rightarrow> (nat \<times> nat \<times> string) list" where
  \<comment> \<open>the ranges \<open>(from, to, id)\<close> added to the builder, one widget for each\<close>
  "buildDecorations doc visibleRanges =
     concat (map (\<lambda>(from, to).
                    map (\<lambda>(index, m0, m1). (from + index, from + index + length m0, m1))
                        (exec_loop 0 (sliceString doc from to)))
                 visibleRanges)"


section \<open>The input modal\<close>

definition claims_of :: "string option \<Rightarrow> string list" where
  \<comment> \<open>the list \<open>claims\<close> of \<open>ConnectionModal.onOpen\<close>, from the claims file\<close>
  "claims_of file =
     (case file of
        None \<Rightarrow> []
      | Some text \<Rightarrow>
          map (\<lambda>l. trim (if prefix ''- '' l then drop 2 l else l))
              (filter (\<lambda>l. prefix ''-'' (trim l)) (split_str text [nl])))"


section \<open>The row format\<close>

text \<open>
  The line of a row as the operations write it, following the description of the row
  codec: \<open>createLink\<close> writes \<open>encodeRow id claim [item]\<close>, and \<open>appendRelevance\<close> and
  \<open>removeRelevanceItem\<close> rewrite the third cell, which leaves it padded with blanks:
  \<open>row_line id claim cell\<close> is the line with any third cell. These definitions are
  not taken from a function of the source; the theorems compare the source's
  operations with them.
\<close>

definition row_line :: "string \<Rightarrow> string \<Rightarrow> string \<Rightarrow> string" where
  "row_line cid claim cell = ''| '' @ cid @ '' | '' @ claim @ '' |'' @ cell @ ''|''"

definition encodeRow :: "string \<Rightarrow> string \<Rightarrow> string list \<Rightarrow> string" where
  "encodeRow cid claim items = row_line cid claim ('' '' @ join_str items SEPARATOR @ '' '')"

definition blank :: "string \<Rightarrow> bool" where
  "blank s \<longleftrightarrow> list_all is_space s"

definition item_ok :: "string \<Rightarrow> bool" where
  \<comment> \<open>a sanitized, non-empty item that does not contain the token of the separator\<close>
  "item_ok x \<longleftrightarrow> sanitize x = x \<and> x \<noteq> [] \<and> \<not> includes_str x ''<br>''"

fun pad_items :: "string \<Rightarrow> string list \<Rightarrow> string \<Rightarrow> string list" where
  \<comment> \<open>the pieces of a padded cell between the separators: the first piece begins with
      the blanks before the first item, the last one ends with the blanks after the last\<close>
  "pad_items p1 [] p2 = []"
| "pad_items p1 [x] p2 = [p1 @ x @ p2]"
| "pad_items p1 (x # y # ys) p2 = (p1 @ x) # pad_items [] (y # ys) p2"


section \<open>Lemmas on strings\<close>

lemma includes_iff: "includes_str s p \<longleftrightarrow> (\<exists>a b. s = a @ p @ b)"
proof (induction s)
  case Nil
  then show ?case by auto
next
  case (Cons c cs)
  show ?case
  proof
    assume "includes_str (c # cs) p"
    then consider "prefix p (c # cs)" | "includes_str cs p" by auto
    then show "\<exists>a b. c # cs = a @ p @ b"
    proof cases
      case 1
      then obtain b where "c # cs = p @ b" by (auto simp: prefix_def)
      then have "c # cs = [] @ p @ b" by simp
      then show ?thesis by blast
    next
      case 2
      with Cons.IH obtain a b where "cs = a @ p @ b" by auto
      then have "c # cs = (c # a) @ p @ b" by simp
      then show ?thesis by blast
    qed
  next
    assume "\<exists>a b. c # cs = a @ p @ b"
    then obtain a b where ab: "c # cs = a @ p @ b" by auto
    show "includes_str (c # cs) p"
    proof (cases a)
      case Nil
      with ab have "prefix p (c # cs)" by (simp add: prefix_def)
      then show ?thesis by simp
    next
      case (Cons x a')
      with ab have "cs = a' @ p @ b" by simp
      with Cons.IH have "includes_str cs p" by blast
      then show ?thesis by simp
    qed
  qed
qed

lemma split_ne: "sep \<noteq> [] \<Longrightarrow> split_str s sep \<noteq> []"
  by (induction s sep rule: split_str.induct) (auto split: list.splits)

lemma join_Cons: "ps \<noteq> [] \<Longrightarrow> join_str (p # ps) sep = p @ sep @ join_str ps sep"
  by (cases ps) auto

lemma join_split: "sep \<noteq> [] \<Longrightarrow> join_str (split_str s sep) sep = s"
proof (induction s sep rule: split_str.induct)
  case (1 sep)
  then show ?case by simp
next
  case (2 c cs sep)
  show ?case
  proof (cases "prefix sep (c # cs)")
    case True
    then have e: "c # cs = sep @ drop (length sep) (c # cs)"
      by (auto simp: prefix_def)
    from True 2 have "join_str (split_str (drop (length sep) (c # cs)) sep) sep = drop (length sep) (c # cs)"
      by simp
    with True 2(4) e show ?thesis
      by (simp add: join_Cons split_ne del: drop_Suc_Cons)
  next
    case False
    with 2 have ih: "join_str (split_str cs sep) sep = cs" by simp
    from 2(4) obtain p ps where pp: "split_str cs sep = p # ps"
      using split_ne[of sep cs] by (cases "split_str cs sep") auto
    with ih False 2(4) show ?thesis
      by (cases ps) auto
  qed
qed

lemma trim_Nil: "trim [] = []"
  by (simp add: trim_def)

lemma trim_set: "set (trim s) \<subseteq> set s"
proof -
  have "set (trim s) = set (dropWhile is_space (rev (dropWhile is_space s)))"
    by (simp add: trim_def)
  also have "\<dots> \<subseteq> set (rev (dropWhile is_space s))"
    by (auto dest: set_dropWhileD)
  also have "\<dots> \<subseteq> set s"
    by (auto dest: set_dropWhileD)
  finally show ?thesis .
qed

lemma trim_fixed: "x \<noteq> [] \<Longrightarrow> \<not> is_space (hd x) \<Longrightarrow> \<not> is_space (last x) \<Longrightarrow> trim x = x"
proof -
  assume x: "x \<noteq> []" and h: "\<not> is_space (hd x)" and l: "\<not> is_space (last x)"
  from x h have "dropWhile is_space x = x"
    by (simp add: dropWhile_eq_self_iff)
  moreover from x l have "dropWhile is_space (rev x) = rev x"
    by (simp add: dropWhile_eq_self_iff hd_rev)
  ultimately show ?thesis
    by (simp add: trim_def)
qed

lemma trim_ends:
  assumes "trim y \<noteq> []"
  shows "\<not> is_space (hd (trim y)) \<and> \<not> is_space (last (trim y))"
proof -
  let ?u = "dropWhile is_space y"
  have u: "?u \<noteq> []"
  proof
    assume "?u = []"
    then have "trim y = []" by (simp only: trim_def rev.simps dropWhile.simps)
    with assms show False by simp
  qed
  then obtain c v where cv: "?u = c # v"
    by (cases ?u) auto
  have c: "\<not> is_space c"
    using hd_dropWhile[OF u] cv by simp
  define w where "w = dropWhile is_space (rev v)"
  have "dropWhile is_space (rev ?u) = w @ [c]"
    using c by (simp add: cv dropWhile_append3 w_def)
  then have t: "trim y = c # rev w"
    by (simp add: trim_def)
  have "\<not> is_space (last (trim y))"
  proof (cases "w = []")
    case True
    with t c show ?thesis by simp
  next
    case False
    then have "\<not> is_space (hd w)"
      unfolding w_def by (rule hd_dropWhile)
    with False t show ?thesis
      by (simp add: last_rev)
  qed
  with t c show ?thesis by simp
qed

lemma trim_trim: "trim (trim y) = trim y"
proof (cases "trim y = []")
  case True
  then show ?thesis by (simp add: trim_Nil)
next
  case False
  from trim_ends[OF False] False show ?thesis
    by (simp add: trim_fixed)
qed

lemma trim_blank_left: "\<forall>c\<in>set a. is_space c \<Longrightarrow> trim (a @ s) = trim s"
  by (simp add: trim_def dropWhile_append2)

lemma trim_blank_right:
  assumes "\<forall>c\<in>set b. is_space c"
  shows "trim (s @ b) = trim s"
proof (cases "\<forall>c\<in>set s. is_space c")
  case True
  with assms have e1: "dropWhile is_space (s @ b) = []" and e2: "dropWhile is_space s = []"
    by auto
  show ?thesis unfolding trim_def e1 e2 by simp
next
  case False
  then obtain x where "x \<in> set s" "\<not> is_space x" by auto
  then have "dropWhile is_space (s @ b) = dropWhile is_space s @ b"
    by (rule dropWhile_append1)
  moreover have "dropWhile is_space (rev b @ rev (dropWhile is_space s))
     = dropWhile is_space (rev (dropWhile is_space s))"
    by (rule dropWhile_append2) (use assms in auto)
  ultimately show ?thesis
    by (simp add: trim_def)
qed

lemma trim_blank: "\<forall>c\<in>set a. is_space c \<Longrightarrow> trim a = []"
  using trim_blank_left[of a "[]"] by (simp add: trim_Nil)

lemma sanitize_chars: "CHR ''|'' \<notin> set (sanitize t) \<and> nl \<notin> set (sanitize t)"
proof -
  let ?z = "map (\<lambda>c. if c = nl then CHR '' '' else c) (map (\<lambda>c. if c = CHR ''|'' then CHR ''-'' else c) t)"
  have "CHR ''|'' \<notin> set ?z \<and> nl \<notin> set ?z" by auto
  with trim_set[of ?z] show ?thesis
    unfolding sanitize_def by blast
qed

lemma sanitize_trim: "trim (sanitize t) = sanitize t"
  by (simp add: sanitize_def trim_trim)

lemma sanitize_clean:
  assumes "CHR ''|'' \<notin> set x" "nl \<notin> set x" "trim x = x"
  shows "sanitize x = x"
proof -
  have "map (\<lambda>c. if c = nl then CHR '' '' else c) (map (\<lambda>c. if c = CHR ''|'' then CHR ''-'' else c) x) = x"
    using assms(1,2) by (induction x) auto
  with assms(3) show ?thesis by (simp add: sanitize_def)
qed

lemma sanitize_idem: "sanitize (sanitize t) = sanitize t"
  using sanitize_chars[of t] sanitize_trim[of t] by (intro sanitize_clean) auto

lemma sanitized_props:
  assumes "sanitize x = x"
  shows "CHR ''|'' \<notin> set x" "nl \<notin> set x" "trim x = x"
  using sanitize_chars[of x] sanitize_trim[of x] assms by auto

lemma includes_char: "includes_str x [c] \<longleftrightarrow> c \<in> set x"
  by (induction x) auto

lemma includes_append_left: "includes_str s p \<Longrightarrow> includes_str (t @ s) p"
  by (induction t) auto

lemma includes_mid: "includes_str (a @ p @ b) p"
  by (auto simp: includes_iff)

lemma includes_self: "includes_str (p @ b) p"
  using includes_mid[of "[]" p b] by simp

lemma prefix_long: "length p \<le> length w \<Longrightarrow> prefix p (w @ t) \<longleftrightarrow> prefix p w"
  by (auto simp: prefix_append)

lemma split_free: "sep \<noteq> [] \<Longrightarrow> \<not> includes_str x sep \<Longrightarrow> split_str x sep = [x]"
  by (induction x) auto

lemma split_sep_first:
  assumes "sep \<noteq> []"
  shows "split_str (sep @ rest) sep = [] # split_str rest sep"
proof -
  from assms obtain a l where e: "sep @ rest = a # l"
    by (cases sep) auto
  then have "prefix sep (a # l)"
    by (metis prefixI)
  with assms have "split_str (a # l) sep = [] # split_str (drop (length sep) (a # l)) sep"
    by (simp del: drop_Suc_Cons)
  then show ?thesis
    by (simp add: e[symmetric])
qed

lemma split_app:
  "sep \<noteq> [] \<Longrightarrow> \<not> includes_str (x @ butlast sep) sep \<Longrightarrow>
   split_str (x @ sep @ rest) sep = x # split_str rest sep"
proof (induction x)
  case Nil
  then show ?case by (simp add: split_sep_first)
next
  case (Cons c xs)
  from Cons.prems have np: "\<not> prefix sep (c # xs @ butlast sep)"
    and ni: "\<not> includes_str (xs @ butlast sep) sep"
    by auto
  have "c # xs @ sep @ rest = (c # xs @ butlast sep) @ ([last sep] @ rest)"
    using Cons.prems(1) by simp
  moreover have "length sep \<le> length (c # xs @ butlast sep)"
    by simp
  ultimately have "\<not> prefix sep (c # xs @ sep @ rest)"
    using np prefix_long by metis
  moreover have "split_str (xs @ sep @ rest) sep = xs # split_str rest sep"
    using Cons.IH[OF Cons.prems(1) ni] .
  ultimately show ?case
    using Cons.prems(1) by simp
qed

lemma split_join:
  "sep \<noteq> [] \<Longrightarrow> xs \<noteq> [] \<Longrightarrow> \<forall>x\<in>set xs. \<not> includes_str (x @ butlast sep) sep \<Longrightarrow>
   \<not> includes_str (last xs) sep \<Longrightarrow> split_str (join_str xs sep) sep = xs"
proof (induction xs)
  case Nil
  then show ?case by simp
next
  case (Cons x xs)
  show ?case
  proof (cases xs)
    case Nil
    with Cons.prems show ?thesis by (simp add: split_free)
  next
    case (Cons y ys)
    with Cons.prems Cons.IH have "split_str (join_str xs sep) sep = xs"
      by simp
    moreover have "split_str (x @ sep @ join_str xs sep) sep = x # split_str (join_str xs sep) sep"
      using Cons.prems by (intro split_app) auto
    ultimately show ?thesis
      using Cons by simp
  qed
qed

lemma includes_shorter: "\<not> includes_str (x @ e) p \<Longrightarrow> \<not> includes_str x p"
proof (induction x)
  case Nil
  then show ?case by (cases e) auto
next
  case (Cons c cs)
  then show ?case by (auto dest: prefix_prefix)
qed

lemma split_join_char:
  "xs \<noteq> [] \<Longrightarrow> \<forall>x\<in>set xs. c \<notin> set x \<Longrightarrow> split_str (join_str xs [c]) [c] = xs"
  by (rule split_join) (auto simp: includes_char)

lemma split_app_char: "c \<notin> set x \<Longrightarrow> split_str (x @ c # rest) [c] = x # split_str rest [c]"
  using split_app[of "[c]" x rest] by (simp add: includes_char)

lemma split_free_char: "c \<notin> set x \<Longrightarrow> split_str x [c] = [x]"
  by (rule split_free) (auto simp: includes_char)

lemma split_parts_free: "p \<in> set (split_str s [c]) \<Longrightarrow> c \<notin> set p"
proof (induction s "[c]" arbitrary: p rule: split_str.induct)
  case 1
  then show ?case by simp
next
  case (2 x xs)
  show ?case
  proof (cases "x = c")
    case True
    with 2 show ?thesis by auto
  next
    case False
    with 2 show ?thesis
      by (cases "split_str xs [c]") auto
  qed
qed

lemma split_chars: "sep \<noteq> [] \<Longrightarrow> p \<in> set (split_str s sep) \<Longrightarrow> set p \<subseteq> set s"
proof (induction s sep arbitrary: p rule: split_str.induct)
  case (1 sep)
  then show ?case by simp
next
  case (2 c cs sep)
  show ?case
  proof (cases "prefix sep (c # cs)")
    case True
    with 2 have "p = [] \<or> p \<in> set (split_str (drop (length sep) (c # cs)) sep)"
      by auto
    with 2 True have "p = [] \<or> set p \<subseteq> set (drop (length sep) (c # cs))"
      by blast
    then show ?thesis
      using set_drop_subset[of "length sep" "c # cs"] by auto
  next
    case False
    with 2 have ih: "\<And>q. q \<in> set (split_str cs sep) \<Longrightarrow> set q \<subseteq> set cs"
      by simp
    from 2(4) obtain a l where al: "split_str cs sep = a # l"
      using split_ne[of sep cs] by (cases "split_str cs sep") auto
    with False 2 have "p = c # a \<or> p \<in> set l"
      by auto
    moreover have "set a \<subseteq> set cs"
      using ih[of a] al by simp
    moreover have "p \<in> set l \<Longrightarrow> set p \<subseteq> set cs"
      using ih[of p] al by simp
    ultimately show ?thesis
      by auto
  qed
qed

lemma join_chars: "set (join_str xs sep) \<subseteq> set sep \<union> \<Union> (set ` set xs)"
  by (induction xs sep rule: join_str.induct) auto

lemma length_split_pos: "sep \<noteq> [] \<Longrightarrow> 0 < length (split_str s sep)"
  using split_ne[of sep s] by simp


section \<open>Lemmas on rows\<close>

lemma blank_set: "blank s \<longleftrightarrow> (\<forall>c\<in>set s. is_space c)"
  by (simp add: blank_def list_all_iff)

lemma row_includes: "includes_str (row_line cid claim cell) (row_pat cid)"
proof -
  have "row_line cid claim cell = row_pat cid @ ('' '' @ claim @ '' |'' @ cell @ ''|'')"
    by (simp add: row_line_def row_pat_def)
  then show ?thesis
    by (simp only: includes_self)
qed

lemma row_split:
  assumes "CHR ''|'' \<notin> set cid" "CHR ''|'' \<notin> set claim" "CHR ''|'' \<notin> set cell"
  shows "split_str (row_line cid claim cell) ''|''
    = [[], '' '' @ cid @ '' '', '' '' @ claim @ '' '', cell, []]"
proof -
  let ?a = "'' '' @ cid @ '' ''" and ?b = "'' '' @ claim @ '' ''"
  have a: "CHR ''|'' \<notin> set ?a" and b: "CHR ''|'' \<notin> set ?b"
    using assms by auto
  have "row_line cid claim cell
      = [] @ CHR ''|'' # (?a @ CHR ''|'' # (?b @ CHR ''|'' # (cell @ CHR ''|'' # [])))"
    by (simp add: row_line_def)
  moreover have "split_str (cell @ CHR ''|'' # []) ''|'' = cell # split_str [] ''|''"
    by (rule split_app_char) fact
  moreover have "split_str (?b @ CHR ''|'' # (cell @ CHR ''|'' # [])) ''|''
      = ?b # split_str (cell @ CHR ''|'' # []) ''|''"
    by (rule split_app_char) (rule b)
  moreover have "split_str (?a @ CHR ''|'' # (?b @ CHR ''|'' # (cell @ CHR ''|'' # []))) ''|''
      = ?a # split_str (?b @ CHR ''|'' # (cell @ CHR ''|'' # [])) ''|''"
    by (rule split_app_char) (rule a)
  moreover have "split_str ([] @ CHR ''|'' # (?a @ CHR ''|'' # (?b @ CHR ''|'' # (cell @ CHR ''|'' # [])))) ''|''
      = [] # split_str (?a @ CHR ''|'' # (?b @ CHR ''|'' # (cell @ CHR ''|'' # []))) ''|''"
    by (rule split_app_char) simp
  ultimately show ?thesis
    by (simp only: split_str.simps) simp
qed

lemma row_join: "join_str [[], a, b, cell, []] ''|'' = ''|'' @ a @ ''|'' @ b @ ''|'' @ cell @ ''|''"
  by simp

lemma trim_pad1: "trim x = x \<Longrightarrow> trim ('' '' @ x @ '' '') = x"
proof -
  assume x: "trim x = x"
  have "trim ('' '' @ (x @ '' '')) = trim (x @ '' '')"
    by (rule trim_blank_left) (simp add: is_space_def)
  also have "\<dots> = trim x"
    by (rule trim_blank_right) (simp add: is_space_def)
  finally show ?thesis using x by simp
qed

lemma not_space_marker_chars: "\<not> is_space CHR ''<''" "\<not> is_space CHR ''|''"
  by (simp_all add: is_space_def)

text \<open>occurrences of a pattern cannot overlap text over other characters\<close>

lemma includes_pad_left:
  "set a \<inter> set p = {} \<Longrightarrow> p \<noteq> [] \<Longrightarrow> includes_str (a @ x) p \<Longrightarrow> includes_str x p"
proof (induction a)
  case Nil
  then show ?case by simp
next
  case (Cons c a)
  from Cons.prems(1,2) have "\<not> prefix p (c # a @ x)"
    by (cases p) auto
  with Cons show ?case by auto
qed

lemma includes_pad_right:
  "set b \<inter> set p = {} \<Longrightarrow> p \<noteq> [] \<Longrightarrow> includes_str (x @ b) p \<Longrightarrow> includes_str x p"
proof (induction x)
  case Nil
  then obtain u v where "b = u @ p @ v"
    by (auto simp: includes_iff)
  with Nil.prems(1,2) show ?case
    by (cases p) auto
next
  case (Cons c cs)
  from Cons.prems(3) consider "prefix p ((c # cs) @ b)" | "includes_str (cs @ b) p"
    by auto
  then show ?case
  proof cases
    case 1
    then consider "prefix p (c # cs)" | us where "p = (c # cs) @ us" "prefix us b"
      unfolding prefix_append by blast
    then show ?thesis
    proof cases
      case 1
      then show ?thesis by simp
    next
      case 2
      show ?thesis
      proof (cases us)
        case Nil
        with 2 show ?thesis by simp
      next
        case (Cons u us')
        with 2 have "u \<in> set b" "u \<in> set p"
          by (auto simp: prefix_def)
        with Cons.prems(1) show ?thesis by blast
      qed
    qed
  next
    case 2
    with Cons show ?thesis by simp
  qed
qed

lemma prefix_includes: "prefix p s \<Longrightarrow> includes_str s p"
  by (cases s) auto

lemma sep_occ:
  "\<not> includes_str x ''<br>'' \<Longrightarrow> \<not> includes_str (x @ butlast SEPARATOR) SEPARATOR"
proof (induction x)
  case Nil
  show ?case by (simp add: SEPARATOR_def)
next
  case (Cons c cs)
  from Cons.prems have nc: "\<not> includes_str cs ''<br>''"
    by simp
  have "\<not> prefix '' <br> '' (c # cs @ '' <br>'')"
  proof
    assume "prefix '' <br> '' (c # cs @ '' <br>'')"
    then have "CHR '' '' = c \<and> prefix ''<br> '' (cs @ '' <br>'')"
      unfolding Cons_prefix_Cons .
    then have "prefix ''<br> '' (cs @ '' <br>'')"
      by (rule conjunct2)
    then have "prefix (''<br>'' @ '' '') (cs @ '' <br>'')"
      by (simp only: append.simps)
    then have "prefix ''<br>'' (cs @ '' <br>'')"
      by (rule append_prefixD)
    then consider "prefix ''<br>'' cs" | us where "''<br>'' = cs @ us" "prefix us '' <br>''"
      unfolding prefix_append by blast
    then show False
    proof cases
      case 1
      with nc show False by (auto dest: prefix_includes)
    next
      case 2
      show False
      proof (cases us)
        case Nil
        with 2 have "prefix ''<br>'' cs" by simp
        with nc show False by (auto dest: prefix_includes)
      next
        case (Cons u us')
        with 2(2) have u: "u = CHR '' ''" by simp
        have "set ''<br>'' = set (cs @ us)"
          by (simp only: 2(1))
        moreover have "CHR '' '' \<in> set (cs @ us)"
          using Cons u by simp
        ultimately have "CHR '' '' \<in> set ''<br>''"
          by (simp only:)
        then show False by simp
      qed
    qed
  qed
  with Cons.IH[OF nc] show ?case
    by (simp add: SEPARATOR_def)
qed

lemma sep_free: "\<not> includes_str x ''<br>'' \<Longrightarrow> \<not> includes_str x SEPARATOR"
  using sep_occ includes_shorter by blast

lemma split_join_sep:
  "items \<noteq> [] \<Longrightarrow> \<forall>x\<in>set items. \<not> includes_str x ''<br>'' \<Longrightarrow>
   split_str (join_str items SEPARATOR) SEPARATOR = items"
proof (rule split_join)
  show "SEPARATOR \<noteq> []" by (simp add: SEPARATOR_def)
qed (auto simp: sep_occ sep_free)

lemma join_hd: "x \<noteq> [] \<Longrightarrow> hd (join_str (x # xs) sep) = hd x"
  by (cases xs) auto

lemma join_ne: "x \<noteq> [] \<Longrightarrow> join_str (x # xs) sep \<noteq> []"
  by (cases xs) auto

lemma join_ne_last: "xs \<noteq> [] \<Longrightarrow> last xs \<noteq> [] \<Longrightarrow> join_str xs sep \<noteq> []"
  by (induction xs sep rule: join_str.induct) auto

lemma join_last: "xs \<noteq> [] \<Longrightarrow> last xs \<noteq> [] \<Longrightarrow> last (join_str xs sep) = last (last xs)"
proof (induction xs sep rule: join_str.induct)
  case (3 x y ys sep)
  then have "join_str (y # ys) sep \<noteq> []"
    by (intro join_ne_last) auto
  with 3 show ?case by simp
qed auto

lemma join_snoc: "xs \<noteq> [] \<Longrightarrow> join_str (xs @ [t]) sep = join_str xs sep @ sep @ t"
  by (induction xs sep rule: join_str.induct) auto

lemma item_ok_props:
  assumes "item_ok x"
  shows "CHR ''|'' \<notin> set x" "nl \<notin> set x" "trim x = x" "x \<noteq> []"
    "\<not> includes_str x ''<br>''" "\<not> is_space (hd x)" "\<not> is_space (last x)"
proof -
  from assms have s: "sanitize x = x" and n: "x \<noteq> []" and b: "\<not> includes_str x ''<br>''"
    by (auto simp: item_ok_def)
  from sanitized_props[OF s] show "CHR ''|'' \<notin> set x" "nl \<notin> set x" and t: "trim x = x"
    by auto
  from n b show "x \<noteq> []" "\<not> includes_str x ''<br>''" by auto
  from n t trim_ends[of x] show "\<not> is_space (hd x)" "\<not> is_space (last x)" by auto
qed

lemma items_join_trim:
  assumes "items \<noteq> []" "\<forall>x\<in>set items. item_ok x"
  shows "trim (join_str items SEPARATOR) = join_str items SEPARATOR"
    and "join_str items SEPARATOR \<noteq> []"
proof -
  from assms obtain x xs where xs: "items = x # xs"
    by (cases items) auto
  with assms have x: "item_ok x" and l: "item_ok (last items)"
    by auto
  have ne: "join_str items SEPARATOR \<noteq> []"
    using item_ok_props(4)[OF x] by (simp add: xs join_ne)
  have "hd (join_str items SEPARATOR) = hd x"
    using item_ok_props(4)[OF x] by (simp add: xs join_hd)
  with item_ok_props(6)[OF x] have h: "\<not> is_space (hd (join_str items SEPARATOR))"
    by simp
  have "last (join_str items SEPARATOR) = last (last items)"
    using item_ok_props(4)[OF l] assms(1) by (rule join_last[rotated])
  with item_ok_props(7)[OF l] have e: "\<not> is_space (last (join_str items SEPARATOR))"
    by simp
  show "trim (join_str items SEPARATOR) = join_str items SEPARATOR"
    using ne h e by (rule trim_fixed)
  show "join_str items SEPARATOR \<noteq> []" by (rule ne)
qed

lemma cell_trim:
  assumes "blank p1" "blank p2"
  shows "trim (p1 @ s @ p2) = trim s"
proof -
  have "trim (p1 @ (s @ p2)) = trim (s @ p2)"
    using assms(1) by (intro trim_blank_left) (simp add: blank_set)
  also have "\<dots> = trim s"
    using assms(2) by (intro trim_blank_right) (simp add: blank_set)
  finally show ?thesis .
qed

lemma cell_trim_items:
  assumes "blank p1" "blank p2" "\<forall>x\<in>set items. item_ok x"
  shows "trim (p1 @ join_str items SEPARATOR @ p2) = join_str items SEPARATOR"
proof (cases "items = []")
  case True
  then show ?thesis
    using cell_trim[OF assms(1,2), of "[]"] by (simp add: trim_Nil)
next
  case False
  have "trim (p1 @ join_str items SEPARATOR @ p2) = trim (join_str items SEPARATOR)"
    using assms(1,2) by (rule cell_trim)
  also have "\<dots> = join_str items SEPARATOR"
    using False assms(3) by (rule items_join_trim(1))
  finally show ?thesis .
qed

lemma blank_no_bar:
  assumes "blank p"
  shows "CHR ''|'' \<notin> set p"
proof
  assume "CHR ''|'' \<in> set p"
  with assms have "is_space CHR ''|''"
    by (simp add: blank_set)
  then show False
    by (simp add: is_space_def)
qed

lemma cell_no_bar:
  assumes "blank p1" "blank p2" "\<forall>x\<in>set items. item_ok x"
  shows "CHR ''|'' \<notin> set (p1 @ join_str items SEPARATOR @ p2)"
proof -
  have "CHR ''|'' \<notin> set SEPARATOR"
    by (simp add: SEPARATOR_def)
  moreover have "\<forall>x\<in>set items. CHR ''|'' \<notin> set x"
    using assms(3) item_ok_props(1) by blast
  ultimately have "CHR ''|'' \<notin> set (join_str items SEPARATOR)"
    using join_chars[of items SEPARATOR] by blast
  with assms(1,2) show ?thesis
    by (simp add: blank_no_bar)
qed

lemma decode_items:
  assumes "\<forall>x\<in>set items. item_ok x" "items \<noteq> []"
  shows "filter (\<lambda>s. length (trim s) > 0) (split_str (join_str items SEPARATOR) SEPARATOR) = items"
proof -
  have "split_str (join_str items SEPARATOR) SEPARATOR = items"
    using assms item_ok_props(5) by (intro split_join_sep) auto
  moreover have "filter (\<lambda>s. length (trim s) > 0) items = items"
    using assms(1) item_ok_props(3,4) by (intro filter_True) auto
  ultimately show ?thesis by simp
qed

lemma decode_row:
  assumes "CHR ''|'' \<notin> set cid" "CHR ''|'' \<notin> set claim" "trim claim = claim"
    and "\<forall>x\<in>set items. item_ok x" "blank p1" "blank p2"
  shows "decodeRow (row_line cid claim (p1 @ join_str items SEPARATOR @ p2)) = Some (claim, items)"
proof -
  let ?cell = "p1 @ join_str items SEPARATOR @ p2"
  have sp: "split_str (row_line cid claim ?cell) ''|''
      = [[], '' '' @ cid @ '' '', '' '' @ claim @ '' '', ?cell, []]"
    using assms(1,2) cell_no_bar[OF assms(5,6,4)] by (rule row_split)
  have t: "trim ?cell = join_str items SEPARATOR"
    using assms(5,6,4) by (rule cell_trim_items)
  have c: "trim (CHR '' '' # claim @ '' '') = claim"
    using trim_pad1[OF assms(3)] by simp
  have d: "decodeRow (row_line cid claim ?cell)
      = (if join_str items SEPARATOR = [] then Some (claim, [])
         else Some (claim, filter (\<lambda>s. length (trim s) > 0)
                (split_str (join_str items SEPARATOR) SEPARATOR)))"
    by (simp only: decodeRow_def Let_def sp) (simp add: t c)
  show ?thesis
  proof (cases "items = []")
    case True
    show ?thesis
      unfolding d using True by simp
  next
    case False
    with assms(4) have "join_str items SEPARATOR \<noteq> []"
      by (simp add: items_join_trim)
    with decode_items[OF assms(4) False] show ?thesis
      unfolding d by simp
  qed
qed

lemma find_row_skip:
  "\<forall>l\<in>set pre. \<not> includes_str l (row_pat cid) \<Longrightarrow> find_row cid (pre @ rest) = find_row cid rest"
  by (induction pre) auto

lemma find_row_hit:
  assumes "\<forall>l\<in>set pre. \<not> includes_str l (row_pat cid)" "includes_str l (row_pat cid)"
    "decodeRow l = Some r"
  shows "find_row cid (pre @ l # post) = Some r"
  using assms by (simp add: find_row_skip)

lemma append_row:
  assumes "CHR ''|'' \<notin> set cid" "CHR ''|'' \<notin> set claim"
    and "\<forall>x\<in>set items. item_ok x" "blank p1" "blank p2"
  shows "append_line cid t (row_line cid claim (p1 @ join_str items SEPARATOR @ p2))
    = row_line cid claim ((if items = [] then ''  '' else '' '') @ join_str (items @ [t]) SEPARATOR @ '' '')"
proof -
  let ?cell = "p1 @ join_str items SEPARATOR @ p2"
  have sp: "split_str (row_line cid claim ?cell) ''|''
      = [[], '' '' @ cid @ '' '', '' '' @ claim @ '' '', ?cell, []]"
    using assms(1,2) cell_no_bar[OF assms(4,5,3)] by (rule row_split)
  have t: "trim ?cell = join_str items SEPARATOR"
    using assms(4,5,3) by (rule cell_trim_items)
  let ?new = "'' '' @ join_str items SEPARATOR
     @ (if length (join_str items SEPARATOR) > 0 then SEPARATOR else '' '') @ t @ '' ''"
  have "append_line cid t (row_line cid claim ?cell)
      = join_str ([[], '' '' @ cid @ '' '', '' '' @ claim @ '' '', ?cell, []][3 := ?new]) ''|''"
    using row_includes[of cid claim ?cell]
    by (simp only: append_line_def Let_def sp if_True) (simp add: t)
  also have "\<dots> = row_line cid claim ?new"
    by (simp add: row_line_def)
  also have "?new = (if items = [] then ''  '' else '' '') @ join_str (items @ [t]) SEPARATOR @ '' ''"
  proof (cases "items = []")
    case True
    then show ?thesis by simp
  next
    case False
    with assms(3) have "join_str items SEPARATOR \<noteq> []"
      by (simp add: items_join_trim)
    with False show ?thesis
      by (simp add: join_snoc)
  qed
  finally show ?thesis .
qed


section \<open>The row codec\<close>

lemma blank_space: "blank '' ''"
  by (simp add: blank_def is_space_def)

lemma nl_not_in_sep: "nl \<notin> set SEPARATOR"
  by (simp add: SEPARATOR_def)

lemma row_no_nl:
  assumes "nl \<notin> set cid" "nl \<notin> set claim" "nl \<notin> set cell"
  shows "nl \<notin> set (row_line cid claim cell)"
  using assms by (simp add: row_line_def)

lemma items_no_nl:
  assumes "\<forall>x\<in>set items. item_ok x"
  shows "nl \<notin> set (join_str items SEPARATOR)"
proof -
  have "\<forall>x\<in>set items. nl \<notin> set x"
    using assms item_ok_props(2) by blast
  with nl_not_in_sep show ?thesis
    using join_chars[of items SEPARATOR] by blast
qed

lemma encodeRow_eq:
  "encodeRow cid claim items = row_line cid claim ('' '' @ join_str items SEPARATOR @ '' '')"
  by (simp add: encodeRow_def)

text \<open>
  Claim C1, as amended. For every sanitized id and claim and every sequence of zero or
  more items that are sanitized, non-empty and free of the token \<open><br>\<close>, decoding the
  encoded row line gives back the claim and the items in the same order, the second
  field of the line trims to the id, and reading the row by that id from a store that
  holds the line finds the same claim and items.
\<close>

theorem roundtrip_row:
  assumes "sanitize cid = cid" "sanitize claim = claim" "\<forall>x\<in>set items. item_ok x"
  shows "decodeRow (encodeRow cid claim items) = Some (claim, items)
    \<and> map trim (split_str (encodeRow cid claim items) ''|'') ! 1 = cid
    \<and> getRelevanceData cid (Some (encodeRow cid claim items)) = Some (claim, items)"
proof -
  note c = sanitized_props[OF assms(1)] and k = sanitized_props[OF assms(2)]
  let ?cell = "'' '' @ join_str items SEPARATOR @ '' ''"
  have d: "decodeRow (encodeRow cid claim items) = Some (claim, items)"
    unfolding encodeRow_eq
    using c(1) k(1) k(3) assms(3) blank_space blank_space by (rule decode_row)
  have "split_str (encodeRow cid claim items) ''|''
      = [[], '' '' @ cid @ '' '', '' '' @ claim @ '' '', ?cell, []]"
    unfolding encodeRow_eq
    using c(1) k(1) cell_no_bar[OF blank_space blank_space assms(3)] by (rule row_split)
  then have i: "map trim (split_str (encodeRow cid claim items) ''|'') ! 1 = cid"
    using trim_pad1[OF c(3)] by simp
  have "nl \<notin> set ?cell"
    using items_no_nl[OF assms(3)] by simp
  with c(2) k(2) have "nl \<notin> set (encodeRow cid claim items)"
    unfolding encodeRow_eq by (intro row_no_nl)
  then have "split_str (encodeRow cid claim items) [nl] = [encodeRow cid claim items]"
    by (rule split_free_char)
  moreover have "includes_str (encodeRow cid claim items) (row_pat cid)"
    unfolding encodeRow_eq by (rule row_includes)
  ultimately have "getRelevanceData cid (Some (encodeRow cid claim items)) = Some (claim, items)"
    using d by (simp add: getRelevanceData_def)
  with d i show ?thesis by blast
qed

text \<open>The amended round trip at a row with two items.\<close>

theorem roundtrip_row_witness:
  "decodeRow (encodeRow ''123456'' ''Claim A'' [''Reason 1'', ''Reason 2''])
     = Some (''Claim A'', [''Reason 1'', ''Reason 2''])
   \<and> map trim (split_str (encodeRow ''123456'' ''Claim A'' [''Reason 1'', ''Reason 2'']) ''|'') ! 1
     = ''123456''
   \<and> getRelevanceData ''123456'' (Some (encodeRow ''123456'' ''Claim A'' [''Reason 1'', ''Reason 2'']))
     = Some (''Claim A'', [''Reason 1'', ''Reason 2''])"
proof (rule roundtrip_row)
  show "sanitize ''123456'' = ''123456''"
    by code_simp
  show "sanitize ''Claim A'' = ''Claim A''"
    by code_simp
  show "\<forall>x\<in>set [''Reason 1'', ''Reason 2'']. item_ok x"
    by code_simp
qed

text \<open>
  The claim as stated fails for a sanitized, non-empty item that contains the in-cell
  separator: the row decodes to two items.
\<close>

theorem roundtrip_row_counterexample:
  "sanitize ''a <br> b'' = ''a <br> b'' \<and> ''a <br> b'' \<noteq> []
   \<and> decodeRow (encodeRow ''123456'' ''c'' [''a <br> b'']) = Some (''c'', [''a'', ''b''])"
  by code_simp


section \<open>Creating a connection\<close>

lemma digit_nth: "i < 10 \<Longrightarrow> is_digit (''0123456789'' ! i)"
proof -
  assume "i < 10"
  then have "i < length ''0123456789''" by simp
  then have "''0123456789'' ! i \<in> set ''0123456789''" by (rule nth_mem)
  then show ?thesis by (simp only: is_digit_def)
qed

lemma toString_digits: "list_all is_digit (toString n) \<and> toString n \<noteq> []"
proof (induction n rule: toString.induct)
  case (1 n)
  show ?case
  proof (cases "n < 10")
    case True
    then show ?thesis
      by (subst (1 2) toString.simps) (simp add: digit_nth)
  next
    case False
    with 1 have "list_all is_digit (toString (n div 10))" by simp
    moreover have "is_digit (''0123456789'' ! (n mod 10))"
      by (rule digit_nth) simp
    ultimately show ?thesis
      using False by (subst (1 2) toString.simps) simp
  qed
qed

lemma fresh_id_digits:
  "list_all is_digit (slice_last 6 (toString now)) \<and> slice_last 6 (toString now) \<noteq> []"
proof -
  from toString_digits[of now] have d: "\<forall>c\<in>set (toString now). is_digit c"
    and n: "toString now \<noteq> []"
    by (simp_all add: list_all_iff)
  have "set (slice_last 6 (toString now)) \<subseteq> set (toString now)"
    unfolding slice_last_def by (rule set_drop_subset)
  with d have "\<forall>c\<in>set (slice_last 6 (toString now)). is_digit c"
    by blast
  moreover from n have "0 < length (toString now)"
    by simp
  then have "slice_last 6 (toString now) \<noteq> []"
    unfolding slice_last_def by (simp add: less_diff_conv2 not_le)
  ultimately show ?thesis
    by (simp add: list_all_iff)
qed

lemma digit_not:
  assumes "is_digit d"
  shows "d \<noteq> CHR ''I''" "d \<noteq> CHR ''C''" "d \<noteq> CHR ''R''" "d \<noteq> CHR ''|''" "d \<noteq> nl"
    "\<not> is_space d" "d \<noteq> CHR ''-''" "d \<noteq> CHR '' ''" "d \<noteq> CHR ''<''"
  using assms by (auto simp: is_digit_def is_space_def)

lemma digits_clean:
  assumes "list_all is_digit s"
  shows "CHR ''|'' \<notin> set s" "nl \<notin> set s" "trim s = s" "sanitize s = s"
proof -
  from assms have a: "\<forall>c\<in>set s. is_digit c"
    by (simp add: list_all_iff)
  with digit_not(4,5) show b: "CHR ''|'' \<notin> set s" and n: "nl \<notin> set s"
    by blast+
  show t: "trim s = s"
  proof (cases "s = []")
    case True
    then show ?thesis by (simp add: trim_Nil)
  next
    case False
    then have "hd s \<in> set s" "last s \<in> set s" by simp_all
    with a digit_not(6) have "\<not> is_space (hd s)" "\<not> is_space (last s)" by blast+
    with False show ?thesis by (rule trim_fixed)
  qed
  from b n t show "sanitize s = s" by (rule sanitize_clean)
qed

lemma header_no_match:
  assumes "is_digit d"
  shows "\<not> includes_str ''---'' (row_pat (d # ds))"
    "\<not> includes_str ''cssclasses: fg-database'' (row_pat (d # ds))"
    "\<not> includes_str [] (row_pat (d # ds))"
    "\<not> includes_str ''| ID | Claim | Relevance |'' (row_pat (d # ds))"
    "\<not> includes_str ''|---|---|---|'' (row_pat (d # ds))"
  using digit_not(1,2,3)[OF assms] by (simp_all add: row_pat_def)


lemma fresh_row:
  assumes "list_all is_digit cid" "cid \<noteq> []"
  defines "row \<equiv> ''| '' @ cid @ '' | Claim A | Reason 1 |''"
  shows "split_str (header @ row @ [nl]) [nl]
      = [''---'', ''cssclasses: fg-database'', ''---'', [], ''| ID | Claim | Relevance |'',
         ''|---|---|---|'', row, []]"
    and "getRelevanceData cid (Some (header @ row @ [nl])) = Some (''Claim A'', [''Reason 1''])"
proof -
  note c = digits_clean[OF assms(1)]
  have r: "row = row_line cid ''Claim A'' ('' '' @ join_str [''Reason 1''] SEPARATOR @ '' '')"
    by (simp add: row_def row_line_def)
  have "nl \<notin> set row"
    using c(2) by (simp add: row_def)
  then have "split_str (row @ nl # []) [nl] = row # split_str [] [nl]"
    by (rule split_app_char)
  then have k: "split_str (row @ [nl]) [nl] = [row, []]"
    by simp
  show s: "split_str (header @ row @ [nl]) [nl]
      = [''---'', ''cssclasses: fg-database'', ''---'', [], ''| ID | Claim | Relevance |'',
         ''|---|---|---|'', row, []]"
    by (simp add: header_def k)
  from assms(1,2) obtain d ds where ds: "cid = d # ds" and d: "is_digit d"
    by (cases cid) auto
  have i: "\<forall>x\<in>set [''Reason 1'']. item_ok x"
    by code_simp
  have "decodeRow row = Some (''Claim A'', [''Reason 1''])"
    unfolding r
  proof (rule decode_row)
    show "trim ''Claim A'' = ''Claim A''" by code_simp
  qed (use c(1) i blank_space in simp_all)
  moreover have "includes_str row (row_pat cid)"
    unfolding r by (rule row_includes)
  ultimately show "getRelevanceData cid (Some (header @ row @ [nl])) = Some (''Claim A'', [''Reason 1''])"
    using header_no_match[OF d, of ds]
    by (simp add: getRelevanceData_def s ds)
qed

text \<open>
  Claim C2. Whatever the time, creating the connection of the claim \<open>Claim A\<close> and the
  relevance \<open>Reason 1\<close> when the store file does not exist returns a new id and creates
  the file with the lines of the fixed header followed by exactly one data row, whose
  claim field is \<open>Claim A\<close> and whose only item is \<open>Reason 1\<close>; reading the row of the
  new id from that file returns exactly that claim and that one-element list.
\<close>

theorem createLink_creates_store:
  "(let cid = slice_last 6 (toString now);
        row = ''| '' @ cid @ '' | Claim A | Reason 1 |'';
        content = header @ row @ [nl]
    in createLink now None ''Claim A'' ''Reason 1'' = (cid, Some content, '' (fg:'' @ cid @ '') '')
      \<and> split_str content [nl]
          = [''---'', ''cssclasses: fg-database'', ''---'', [], ''| ID | Claim | Relevance |'',
             ''|---|---|---|'', row, []]
      \<and> decodeRow row = Some (''Claim A'', [''Reason 1''])
      \<and> getRelevanceData cid (Some content) = Some (''Claim A'', [''Reason 1'']))"
proof -
  let ?cid = "slice_last 6 (toString now)"
  let ?row = "''| '' @ ?cid @ '' | Claim A | Reason 1 |''"
  from fresh_id_digits[of now] have d: "list_all is_digit ?cid" and n: "?cid \<noteq> []"
    by simp_all
  have s1: "sanitize ''Claim A'' = ''Claim A''"
    by code_simp
  have s2: "sanitize ''Reason 1'' = ''Reason 1''"
    by code_simp
  have "createLink now None ''Claim A'' ''Reason 1''
      = (?cid, Some (header @ ?row @ [nl]), '' (fg:'' @ ?cid @ '') '')"
    by (simp add: createLink_def Let_def s1 s2)
  moreover have "decodeRow ?row = Some (''Claim A'', [''Reason 1''])"
  proof -
    have "?row = row_line ?cid ''Claim A'' ('' '' @ join_str [''Reason 1''] SEPARATOR @ '' '')"
      by (simp add: row_line_def)
    moreover have "decodeRow (row_line ?cid ''Claim A'' ('' '' @ join_str [''Reason 1''] SEPARATOR @ '' ''))
        = Some (''Claim A'', [''Reason 1''])"
    proof (rule decode_row)
      show "trim ''Claim A'' = ''Claim A''" by code_simp
      show "\<forall>x\<in>set [''Reason 1'']. item_ok x" by code_simp
    qed (use digits_clean(1)[OF d] blank_space in simp_all)
    ultimately show ?thesis by simp
  qed
  ultimately show ?thesis
    using fresh_row[OF d n] by (simp only: Let_def)
qed

text \<open>The same at the time 1730000123456, where the new id is 123456.\<close>

theorem createLink_creates_store_witness:
  "createLink 1730000123456 None ''Claim A'' ''Reason 1''
     = (''123456'',
        Some (header @ ''| 123456 | Claim A | Reason 1 |'' @ [nl]),
        '' (fg:123456) '')
   \<and> getRelevanceData ''123456'' (Some (header @ ''| 123456 | Claim A | Reason 1 |'' @ [nl]))
     = Some (''Claim A'', [''Reason 1''])"
proof -
  have "toString 1730000123456 = ''1730000123456''"
    by (simp add: toString.simps)
  then have i: "slice_last 6 (toString 1730000123456) = ''123456''"
    by (simp add: slice_last_def)
  from createLink_creates_store[of 1730000123456] show ?thesis
    unfolding Let_def i by simp
qed


section \<open>Editing the items of a row\<close>

lemma pad_join: "items \<noteq> [] \<Longrightarrow> join_str (pad_items p1 items p2) sep = p1 @ join_str items sep @ p2"
proof (induction p1 items p2 rule: pad_items.induct)
  case (3 p1 x y ys p2)
  then have "join_str (pad_items [] (y # ys) p2) sep = join_str (y # ys) sep @ p2"
    by simp
  moreover have "pad_items [] (y # ys) p2 \<noteq> []"
    by (cases ys) auto
  ultimately show ?case
    by (simp add: join_Cons)
qed auto

lemma pad_length: "length (pad_items p1 items p2) = length items"
  by (induction p1 items p2 rule: pad_items.induct) auto

lemma pad_elem:
  "q \<in> set (pad_items p1 items p2) \<Longrightarrow>
   \<exists>a b x. q = a @ x @ b \<and> x \<in> set items \<and> (a = p1 \<or> a = []) \<and> (b = p2 \<or> b = [])"
proof (induction p1 items p2 rule: pad_items.induct)
  case (1 p1 p2)
  then show ?case by simp
next
  case (2 p1 x p2)
  then show ?case by auto
next
  case (3 p1 x y ys p2)
  from 3(2) consider "q = p1 @ x" | "q \<in> set (pad_items [] (y # ys) p2)"
    by auto
  then show ?case
  proof cases
    case 1
    then have "q = p1 @ x @ []" by simp
    then show ?thesis by (metis list.set_intros(1))
  next
    case 2
    from 3(1)[OF 2] obtain a b z where "q = a @ z @ b" "z \<in> set (y # ys)" "a = []" "b = p2 \<or> b = []"
      by auto
    then show ?thesis
      by (metis list.set_intros(2))
  qed
qed

lemma pad_splice:
  "i < length items \<Longrightarrow>
   \<exists>q1 q2. (q1 = p1 \<or> q1 = []) \<and> (q2 = p2 \<or> q2 = []) \<and>
     take i (pad_items p1 items p2) @ drop (Suc i) (pad_items p1 items p2)
       = pad_items q1 (take i items @ drop (Suc i) items) q2"
proof (induction p1 items p2 arbitrary: i rule: pad_items.induct)
  case (1 p1 p2)
  then show ?case by simp
next
  case (2 p1 x p2)
  then show ?case by auto
next
  case (3 p1 x y ys p2)
  show ?case
  proof (cases i)
    case 0
    have "take 0 (pad_items p1 (x # y # ys) p2) @ drop (Suc 0) (pad_items p1 (x # y # ys) p2)
        = pad_items [] (take 0 (x # y # ys) @ drop (Suc 0) (x # y # ys)) p2"
      by simp
    then show ?thesis
      unfolding 0 by blast
  next
    case (Suc j)
    with 3(2) have "j < length (y # ys)" by simp
    from 3(1)[OF this] obtain q2 where q2: "q2 = p2 \<or> q2 = []"
      and e: "take j (pad_items [] (y # ys) p2) @ drop (Suc j) (pad_items [] (y # ys) p2)
          = pad_items [] (take j (y # ys) @ drop (Suc j) (y # ys)) q2"
      by auto
    let ?z = "take j (y # ys) @ drop (Suc j) (y # ys)"
    have l: "take i (pad_items p1 (x # y # ys) p2) @ drop (Suc i) (pad_items p1 (x # y # ys) p2)
        = (p1 @ x) # pad_items [] ?z q2"
      using e by (simp add: Suc)
    have r: "take i (x # y # ys) @ drop (Suc i) (x # y # ys) = x # ?z"
      by (simp add: Suc)
    show ?thesis
    proof (cases ?z)
      case Nil
      have "(p1 @ x) # pad_items [] ?z q2 = pad_items p1 (x # ?z) []"
        unfolding Nil by simp
      with l r show ?thesis by metis
    next
      case (Cons z zs)
      have "(p1 @ x) # pad_items [] ?z q2 = pad_items p1 (x # ?z) q2"
        unfolding Cons by simp
      with l r q2 show ?thesis by metis
    qed
  qed
qed

lemma blank_no_token:
  assumes "blank p"
  shows "set p \<inter> set ''<br>'' = {}"
proof -
  have "\<not> is_space CHR ''<''" "\<not> is_space CHR ''b''" "\<not> is_space CHR ''r''" "\<not> is_space CHR ''>''"
    by (simp_all add: is_space_def)
  then have n: "\<And>c. c \<in> set ''<br>'' \<Longrightarrow> \<not> is_space c"
    by auto
  have "\<And>c. c \<in> set p \<Longrightarrow> is_space c"
    using assms by (simp add: blank_set)
  with n show ?thesis
    by blast
qed

lemma blank_Nil: "blank []"
  by (simp add: blank_def)

lemma blank_append: "blank a \<Longrightarrow> blank b \<Longrightarrow> blank (a @ b)"
  by (simp add: blank_def)

lemma padded_piece:
  assumes "blank a" "blank b" "item_ok x"
  shows "\<not> includes_str (a @ x @ b) ''<br>''" "trim (a @ x @ b) = x"
proof -
  show "\<not> includes_str (a @ x @ b) ''<br>''"
  proof
    assume "includes_str (a @ x @ b) ''<br>''"
    then have "includes_str (x @ b) ''<br>''"
      by (rule includes_pad_left[OF blank_no_token[OF assms(1)], rotated]) simp
    then have "includes_str x ''<br>''"
      by (rule includes_pad_right[OF blank_no_token[OF assms(2)], rotated]) simp
    with item_ok_props(5)[OF assms(3)] show False by simp
  qed
  have "trim (a @ x @ b) = trim x"
    using assms(1,2) by (rule cell_trim)
  also have "\<dots> = x"
    by (rule item_ok_props(3)[OF assms(3)])
  finally show "trim (a @ x @ b) = x" .
qed

lemma pad_pieces:
  assumes "blank p1" "blank p2" "\<forall>x\<in>set items. item_ok x" "q \<in> set (pad_items p1 items p2)"
  shows "\<not> includes_str q ''<br>''" "trim q \<noteq> []"
proof -
  from pad_elem[OF assms(4)] obtain a b x where q: "q = a @ x @ b" and x: "x \<in> set items"
    and a: "a = p1 \<or> a = []" and b: "b = p2 \<or> b = []"
    by auto
  from a assms(1) have ba: "blank a" by (auto simp: blank_Nil)
  from b assms(2) have bb: "blank b" by (auto simp: blank_Nil)
  from x assms(3) have ok: "item_ok x" by simp
  show "\<not> includes_str q ''<br>''"
    unfolding q by (rule padded_piece(1)[OF ba bb ok])
  show "trim q \<noteq> []"
    unfolding q padded_piece(2)[OF ba bb ok] by (rule item_ok_props(4)[OF ok])
qed

lemma split_cell:
  assumes "blank p1" "blank p2" "\<forall>x\<in>set items. item_ok x"
  shows "filter (\<lambda>s. length (trim s) > 0) (split_str (p1 @ join_str items SEPARATOR @ p2) SEPARATOR)
    = pad_items p1 items p2"
proof (cases "items = []")
  case True
  have b: "blank (p1 @ p2)"
    using assms(1,2) by (rule blank_append)
  have "\<not> includes_str (p1 @ p2) SEPARATOR"
  proof
    assume "includes_str (p1 @ p2) SEPARATOR"
    then obtain u v where "p1 @ p2 = u @ SEPARATOR @ v"
      by (auto simp: includes_iff)
    then have "set (p1 @ p2) = set (u @ SEPARATOR @ v)"
      by (simp only:)
    then have "CHR ''<'' \<in> set (p1 @ p2)"
      by (simp add: SEPARATOR_def)
    with b have "is_space CHR ''<''"
      by (simp add: blank_set)
    then show False by (simp add: is_space_def)
  qed
  moreover have "SEPARATOR \<noteq> []"
    by (simp add: SEPARATOR_def)
  ultimately have "split_str (p1 @ p2) SEPARATOR = [p1 @ p2]"
    by (intro split_free)
  moreover have "trim (p1 @ p2) = []"
    using b by (intro trim_blank) (simp add: blank_set)
  ultimately show ?thesis
    using True by simp
next
  case False
  let ?ps = "pad_items p1 items p2"
  from False have ne: "?ps \<noteq> []"
    using pad_length[of p1 items p2] by auto
  have "split_str (join_str ?ps SEPARATOR) SEPARATOR = ?ps"
    using ne pad_pieces(1)[OF assms] by (intro split_join_sep) auto
  then have "split_str (p1 @ join_str items SEPARATOR @ p2) SEPARATOR = ?ps"
    using False by (simp add: pad_join)
  moreover have "filter (\<lambda>s. length (trim s) > 0) ?ps = ?ps"
    using pad_pieces(2)[OF assms] by (intro filter_True) auto
  ultimately show ?thesis by simp
qed


lemma splice1_in:
  "0 \<le> k \<Longrightarrow> k < int (length xs) \<Longrightarrow> splice1 k xs = take (nat k) xs @ drop (Suc (nat k)) xs"
  by (simp add: splice1_def)

lemma splice1_out: "\<not> (0 \<le> k \<and> k < int (length xs)) \<Longrightarrow> splice1 k xs = xs"
  by (simp only: splice1_def if_False)

lemma splice1_pad:
  "\<exists>q1 q2. (q1 = p1 \<or> q1 = []) \<and> (q2 = p2 \<or> q2 = []) \<and>
     splice1 k (pad_items p1 items p2) = pad_items q1 (splice1 k items) q2"
proof (cases "0 \<le> k \<and> k < int (length items)")
  case True
  then have k: "0 \<le> k" "k < int (length items)" "k < int (length (pad_items p1 items p2))"
    unfolding pad_length by blast+
  then have "nat k < length items" by (simp add: nat_less_iff)
  from pad_splice[OF this, of p1 p2] show ?thesis
    unfolding splice1_in[OF k(1,2)] splice1_in[OF k(1,3)] .
next
  case False
  have a: "\<not> (0 \<le> k \<and> k < int (length (pad_items p1 items p2)))"
    unfolding pad_length by (rule False)
  have "splice1 k (pad_items p1 items p2) = pad_items p1 (splice1 k items) p2"
    unfolding splice1_out[OF a] splice1_out[OF False] ..
  then show ?thesis by blast
qed

lemma remove_row:
  assumes "CHR ''|'' \<notin> set cid" "CHR ''|'' \<notin> set claim"
    and "\<forall>x\<in>set items. item_ok x" "blank p1" "blank p2"
  shows "\<exists>r1 r2. blank r1 \<and> blank r2 \<and>
    remove_line cid k (row_line cid claim (p1 @ join_str items SEPARATOR @ p2))
      = row_line cid claim (r1 @ join_str (splice1 k items) SEPARATOR @ r2)"
proof -
  let ?cell = "p1 @ join_str items SEPARATOR @ p2"
  have sp: "split_str (row_line cid claim ?cell) ''|''
      = [[], '' '' @ cid @ '' '', '' '' @ claim @ '' '', ?cell, []]"
    using assms(1,2) cell_no_bar[OF assms(4,5,3)] by (rule row_split)
  have f: "filter (\<lambda>s. length (trim s) > 0) (split_str ?cell SEPARATOR) = pad_items p1 items p2"
    using assms(4,5,3) by (rule split_cell)
  then have f': "filter (\<lambda>s. trim s \<noteq> []) (split_str ?cell SEPARATOR) = pad_items p1 items p2"
    by simp
  from splice1_pad[of p1 p2 k items] obtain q1 q2
    where q1: "q1 = p1 \<or> q1 = []" and q2: "q2 = p2 \<or> q2 = []"
      and sl: "splice1 k (pad_items p1 items p2) = pad_items q1 (splice1 k items) q2"
    by blast
  let ?new = "'' '' @ join_str (pad_items q1 (splice1 k items) q2) SEPARATOR @ '' ''"
  have "remove_line cid k (row_line cid claim ?cell)
      = join_str ([[], '' '' @ cid @ '' '', '' '' @ claim @ '' '', ?cell, []][3 := ?new]) ''|''"
    using row_includes[of cid claim ?cell]
    by (simp only: remove_line_def Let_def sp if_True) (simp add: f' sl)
  also have "\<dots> = row_line cid claim ?new"
    by (simp add: row_line_def)
  finally have r: "remove_line cid k (row_line cid claim ?cell) = row_line cid claim ?new" .
  from q1 assms(4) blank_Nil have "blank q1"
    by blast
  with blank_space have b1: "blank ('' '' @ q1)"
    by (rule blank_append)
  from q2 assms(5) blank_Nil have "blank q2"
    by blast
  then have b2: "blank (q2 @ '' '')"
    using blank_space by (rule blank_append)
  show ?thesis
  proof (cases "splice1 k items = []")
    case True
    then have "?new = '' '' @ join_str (splice1 k items) SEPARATOR @ '' ''"
      by simp
    with r blank_space show ?thesis by metis
  next
    case False
    then have "?new = ('' '' @ q1) @ join_str (splice1 k items) SEPARATOR @ (q2 @ '' '')"
      by (simp add: pad_join)
    with r b1 b2 show ?thesis by metis
  qed
qed

lemma splice1_set: "set (splice1 k xs) \<subseteq> set xs"
proof -
  have "set (take (nat k) xs) \<subseteq> set xs" "set (drop (Suc (nat k)) xs) \<subseteq> set xs"
    by (rule set_take_subset, rule set_drop_subset)
  then show ?thesis
    by (auto simp: splice1_def)
qed

lemma update_chars:
  assumes "\<forall>p\<in>set parts. c \<notin> set p" "c \<notin> set new"
  shows "\<forall>p\<in>set (parts[i := new]). c \<notin> set p"
  using assms set_update_subset_insert[of parts i new] by blast

lemma split_part_chars: "sep \<noteq> [] \<Longrightarrow> c \<notin> set s \<Longrightarrow> \<forall>p\<in>set (split_str s sep). c \<notin> set p"
  using split_chars by blast

lemma join_free:
  assumes "\<forall>p\<in>set xs. c \<notin> set p" "c \<notin> set sep"
  shows "c \<notin> set (join_str xs sep)"
  using assms join_chars[of xs sep] by blast

lemma trim_free: "c \<notin> set s \<Longrightarrow> c \<notin> set (trim s)"
  using trim_set[of s] by blast

lemma append_cell_free:
  assumes "c \<notin> set old" "c \<notin> set t" "c \<notin> set SEPARATOR" "c \<noteq> CHR '' ''"
  shows "c \<notin> set ('' '' @ trim old @ (if length (trim old) > 0 then SEPARATOR else '' '') @ t @ '' '')"
  using assms trim_free[of c old] by simp

lemma remove_cell_free:
  assumes "c \<notin> set old" "c \<notin> set SEPARATOR" "c \<noteq> CHR '' ''"
  shows "c \<notin> set ('' '' @ join_str (splice1 k (filter (\<lambda>s. length (trim s) > 0)
            (split_str old SEPARATOR))) SEPARATOR @ '' '')"
proof -
  have "SEPARATOR \<noteq> []" by (simp add: SEPARATOR_def)
  then have "\<forall>p\<in>set (split_str old SEPARATOR). c \<notin> set p"
    using assms(1) by (rule split_part_chars)
  then have "\<forall>p\<in>set (splice1 k (filter (\<lambda>s. length (trim s) > 0) (split_str old SEPARATOR))). c \<notin> set p"
    using splice1_set by fastforce
  then have "c \<notin> set (join_str (splice1 k (filter (\<lambda>s. length (trim s) > 0)
            (split_str old SEPARATOR))) SEPARATOR)"
    using assms(2) by (rule join_free)
  with assms(3) show ?thesis by simp
qed

lemma lines_ne: "split_str content [nl] \<noteq> []"
  by (rule split_ne) simp

lemma map_lines:
  assumes "\<And>l. nl \<notin> set l \<Longrightarrow> nl \<notin> set (f l)"
  shows "split_str (join_str (map f (split_str content [nl])) [nl]) [nl] = map f (split_str content [nl])"
proof (rule split_join_char)
  show "map f (split_str content [nl]) \<noteq> []"
    using lines_ne[of content] by simp
  show "\<forall>x\<in>set (map f (split_str content [nl])). nl \<notin> set x"
    using assms split_parts_free[of _ content nl] by auto
qed

lemma append_line_miss: "\<not> includes_str l (row_pat cid) \<Longrightarrow> append_line cid t l = l"
  by (simp add: append_line_def)

lemma remove_line_miss: "\<not> includes_str l (row_pat cid) \<Longrightarrow> remove_line cid k l = l"
  by (simp add: remove_line_def)

lemma append_line_short:
  "length (split_str l ''|'') < 4 \<Longrightarrow> append_line cid t l = l"
  by (simp add: append_line_def)

lemma remove_line_short:
  "length (split_str l ''|'') < 4 \<Longrightarrow> remove_line cid k l = l"
  by (simp add: remove_line_def)

lemma append_line_hit:
  assumes "includes_str l (row_pat cid)" "4 \<le> length (split_str l ''|'')"
  shows "append_line cid t l = join_str ((split_str l ''|'')[3 :=
      '' '' @ trim (split_str l ''|'' ! 3)
        @ (if length (trim (split_str l ''|'' ! 3)) > 0 then SEPARATOR else '' '') @ t @ '' '']) ''|''"
  using assms by (simp only: append_line_def Let_def if_True)

lemma remove_line_hit:
  assumes "includes_str l (row_pat cid)" "4 \<le> length (split_str l ''|'')"
  shows "remove_line cid k l = join_str ((split_str l ''|'')[3 :=
      '' '' @ join_str (splice1 k (filter (\<lambda>s. length (trim s) > 0)
          (split_str (split_str l ''|'' ! 3) SEPARATOR))) SEPARATOR @ '' '']) ''|''"
  using assms by (simp only: remove_line_def Let_def if_True)

lemma sep_chars: "c \<noteq> CHR '' '' \<Longrightarrow> c \<noteq> CHR ''<'' \<Longrightarrow> c \<noteq> CHR ''b'' \<Longrightarrow> c \<noteq> CHR ''r''
    \<Longrightarrow> c \<noteq> CHR ''>'' \<Longrightarrow> c \<notin> set SEPARATOR"
  by (simp add: SEPARATOR_def)

lemma bar_not_sep: "CHR ''|'' \<notin> set SEPARATOR" "nl \<notin> set SEPARATOR"
  by (simp_all add: SEPARATOR_def)

lemma rewrite_free:
  assumes "c \<notin> set l" "c \<notin> set new" "c \<noteq> CHR ''|''"
  shows "c \<notin> set (join_str ((split_str l ''|'')[3 := new]) ''|'')"
proof (rule join_free)
  have "\<forall>p\<in>set (split_str l ''|''). c \<notin> set p"
    using assms(1) by (intro split_part_chars) simp_all
  then show "\<forall>p\<in>set ((split_str l ''|'')[3 := new]). c \<notin> set p"
    using assms(2) by (rule update_chars)
  show "c \<notin> set ''|''"
    using assms(3) by simp
qed

lemma part3_free:
  assumes "c \<notin> set l" "4 \<le> length (split_str l ''|'')"
  shows "c \<notin> set (split_str l ''|'' ! 3)"
proof -
  have "split_str l ''|'' ! 3 \<in> set (split_str l ''|'')"
    using assms(2) by (intro nth_mem) simp
  moreover have "\<forall>p\<in>set (split_str l ''|''). c \<notin> set p"
    using assms(1) by (intro split_part_chars) simp_all
  ultimately show ?thesis by blast
qed

lemma append_line_nl:
  assumes "nl \<notin> set l" "nl \<notin> set t"
  shows "nl \<notin> set (append_line cid t l)"
proof (cases "includes_str l (row_pat cid) \<and> 4 \<le> length (split_str l ''|'')")
  case True
  then have h: "includes_str l (row_pat cid)" "4 \<le> length (split_str l ''|'')"
    by simp_all
  show ?thesis
    unfolding append_line_hit[OF h]
    using assms(1)
  proof (rule rewrite_free)
    show "nl \<notin> set ('' '' @ trim (split_str l ''|'' ! 3)
        @ (if length (trim (split_str l ''|'' ! 3)) > 0 then SEPARATOR else '' '') @ t @ '' '')"
      using part3_free[OF assms(1) h(2)] assms(2) bar_not_sep(2) by (intro append_cell_free) simp_all
  qed simp
next
  case False
  then have "append_line cid t l = l"
    using append_line_miss[of l cid t] append_line_short[of l cid t] by (auto simp: not_le)
  with assms(1) show ?thesis by simp
qed

lemma remove_line_nl:
  assumes "nl \<notin> set l"
  shows "nl \<notin> set (remove_line cid k l)"
proof (cases "includes_str l (row_pat cid) \<and> 4 \<le> length (split_str l ''|'')")
  case True
  then have h: "includes_str l (row_pat cid)" "4 \<le> length (split_str l ''|'')"
    by simp_all
  show ?thesis
    unfolding remove_line_hit[OF h]
    using assms(1)
  proof (rule rewrite_free)
    show "nl \<notin> set ('' '' @ join_str (splice1 k (filter (\<lambda>s. length (trim s) > 0)
          (split_str (split_str l ''|'' ! 3) SEPARATOR))) SEPARATOR @ '' '')"
      using part3_free[OF assms(1) h(2)] bar_not_sep(2) by (intro remove_cell_free) simp_all
  qed simp
next
  case False
  then have "remove_line cid k l = l"
    using remove_line_miss[of l cid k] remove_line_short[of l cid k] by (auto simp: not_le)
  with assms(1) show ?thesis by simp
qed

lemma rewrite_fields:
  assumes "CHR ''|'' \<notin> set new"
  shows "split_str (join_str ((split_str l ''|'')[3 := new]) ''|'') ''|'' = (split_str l ''|'')[3 := new]"
proof (rule split_join_char)
  show "(split_str l ''|'')[3 := new] \<noteq> []"
    using split_ne[of "''|''" l] by simp
  have "\<forall>p\<in>set (split_str l ''|''). CHR ''|'' \<notin> set p"
    using split_parts_free[of _ l "CHR ''|''"] by blast
  then show "\<forall>p\<in>set ((split_str l ''|'')[3 := new]). CHR ''|'' \<notin> set p"
    using assms by (rule update_chars)
qed

lemma part3_no_bar:
  assumes "4 \<le> length (split_str l ''|'')"
  shows "CHR ''|'' \<notin> set (split_str l ''|'' ! 3)"
proof -
  have "split_str l ''|'' ! 3 \<in> set (split_str l ''|'')"
    using assms by (intro nth_mem) simp
  then show ?thesis
    by (rule split_parts_free)
qed

lemma append_line_fields:
  assumes "includes_str l (row_pat cid)" "4 \<le> length (split_str l ''|'')" "CHR ''|'' \<notin> set t"
  shows "split_str (append_line cid t l) ''|'' = (split_str l ''|'')[3 :=
      '' '' @ trim (split_str l ''|'' ! 3)
        @ (if length (trim (split_str l ''|'' ! 3)) > 0 then SEPARATOR else '' '') @ t @ '' '']"
  unfolding append_line_hit[OF assms(1,2)]
  using part3_no_bar[OF assms(2)] assms(3) bar_not_sep(1)
  by (intro rewrite_fields append_cell_free) simp_all

lemma remove_line_fields:
  assumes "includes_str l (row_pat cid)" "4 \<le> length (split_str l ''|'')"
  shows "split_str (remove_line cid k l) ''|'' = (split_str l ''|'')[3 :=
      '' '' @ join_str (splice1 k (filter (\<lambda>s. length (trim s) > 0)
          (split_str (split_str l ''|'' ! 3) SEPARATOR))) SEPARATOR @ '' '']"
  unfolding remove_line_hit[OF assms(1,2)]
  using part3_no_bar[OF assms(2)] bar_not_sep(1)
  by (intro rewrite_fields remove_cell_free) simp_all

lemma appendRelevance_lines:
  "\<exists>out. appendRelevance cid newText (Some content) = Some out
     \<and> split_str out [nl] = map (append_line cid (sanitize newText)) (split_str content [nl])"
proof -
  have "nl \<notin> set (sanitize newText)"
    using sanitize_chars[of newText] by simp
  then have "\<And>l. nl \<notin> set l \<Longrightarrow> nl \<notin> set (append_line cid (sanitize newText) l)"
    by (rule append_line_nl[rotated])
  from map_lines[of "append_line cid (sanitize newText)", OF this, of content]
  show ?thesis
    by (simp add: appendRelevance_def Let_def)
qed

lemma removeRelevanceItem_lines:
  "\<exists>out. removeRelevanceItem cid k (Some content) = Some out
     \<and> split_str out [nl] = map (remove_line cid k) (split_str content [nl])"
proof -
  have "\<And>l. nl \<notin> set l \<Longrightarrow> nl \<notin> set (remove_line cid k l)"
    by (rule remove_line_nl)
  from map_lines[of "remove_line cid k", OF this, of content]
  show ?thesis
    by (simp add: removeRelevanceItem_def Let_def)
qed

lemma map_miss:
  assumes "\<forall>l\<in>set pre. \<not> includes_str l (row_pat cid)"
    and "\<And>l. \<not> includes_str l (row_pat cid) \<Longrightarrow> f l = l"
  shows "map f pre = pre"
  using assms by (intro map_idI) auto

lemma decodeRow_short: "length (split_str l ''|'') < 4 \<Longrightarrow> decodeRow l = None"
  by (simp add: decodeRow_def Let_def del: split_str.simps)

lemma find_row_pass:
  "\<forall>x\<in>set pre. \<not> (includes_str x (row_pat cid) \<and> 4 \<le> length (split_str x ''|'')) \<Longrightarrow>
   find_row cid (pre @ rest) = find_row cid rest"
proof (induction pre)
  case Nil
  then show ?case by simp
next
  case (Cons x pre)
  then have "\<not> includes_str x (row_pat cid) \<or> decodeRow x = None"
    using decodeRow_short[of x] by (auto simp: not_le)
  with Cons show ?case
    by auto
qed

lemma map_pass:
  assumes "\<forall>x\<in>set pre. \<not> (includes_str x (row_pat cid) \<and> 4 \<le> length (split_str x ''|''))"
    and "\<And>l. \<not> includes_str l (row_pat cid) \<Longrightarrow> f l = l"
    and "\<And>l. length (split_str l ''|'') < 4 \<Longrightarrow> f l = l"
  shows "map f pre = pre"
proof (rule map_idI)
  fix x
  assume "x \<in> set pre"
  with assms(1) have "\<not> includes_str x (row_pat cid) \<or> length (split_str x ''|'') < 4"
    by (auto simp: not_le)
  with assms(2,3) show "f x = x"
    by blast
qed

lemma row_decodes:
  assumes "sanitize cid = cid" "sanitize claim = claim" "\<forall>x\<in>set items. item_ok x"
    "blank p1" "blank p2"
  shows "decodeRow (row_line cid claim (p1 @ join_str items SEPARATOR @ p2)) = Some (claim, items)"
proof -
  note c = sanitized_props[OF assms(1)] and k = sanitized_props[OF assms(2)]
  show ?thesis
    using c(1) k(1) k(3) assms(3,4,5) by (rule decode_row)
qed

lemma read_first:
  assumes "\<forall>x\<in>set pre. \<not> (includes_str x (row_pat cid) \<and> 4 \<le> length (split_str x ''|''))"
    "includes_str l (row_pat cid)" "decodeRow l = Some r"
  shows "find_row cid (pre @ l # post) = Some r"
proof -
  have "find_row cid (pre @ l # post) = find_row cid (l # post)"
    using assms(1) by (rule find_row_pass)
  with assms(2,3) show ?thesis
    by simp
qed

lemma append_row_at:
  assumes "sanitize cid = cid" "sanitize claim = claim" "\<forall>x\<in>set items. item_ok x"
    "blank p1" "blank p2" "item_ok (sanitize newText)"
    "split_str content [nl] = pre @ row_line cid claim (p1 @ join_str items SEPARATOR @ p2) # post"
  defines "row' \<equiv> row_line cid claim ((if items = [] then ''  '' else '' '')
      @ join_str (items @ [sanitize newText]) SEPARATOR @ '' '')"
  shows "map_option (\<lambda>out. split_str out [nl]) (appendRelevance cid newText (Some content))
      = Some (map (append_line cid (sanitize newText)) pre @ row'
          # map (append_line cid (sanitize newText)) post)"
    and "decodeRow row' = Some (claim, items @ [sanitize newText])"
    and "includes_str row' (row_pat cid)"
proof -
  let ?t = "sanitize newText"
  let ?q = "if items = [] then ''  '' else '' ''"
  note c = sanitized_props[OF assms(1)] and k = sanitized_props[OF assms(2)]
  from appendRelevance_lines[of cid newText content] obtain out
    where o: "appendRelevance cid newText (Some content) = Some out"
      and l: "split_str out [nl] = map (append_line cid ?t) (split_str content [nl])"
    by blast
  have r: "append_line cid ?t (row_line cid claim (p1 @ join_str items SEPARATOR @ p2)) = row'"
    unfolding row'_def using c(1) k(1) assms(3,4,5) by (rule append_row)
  show "map_option (\<lambda>out. split_str out [nl]) (appendRelevance cid newText (Some content))
      = Some (map (append_line cid ?t) pre @ row' # map (append_line cid ?t) post)"
    unfolding o using l r by (simp add: assms(7))
  have "blank ?q"
    by (simp add: blank_def is_space_def)
  moreover have "\<forall>x\<in>set (items @ [?t]). item_ok x"
    using assms(3,6) by simp
  ultimately show "decodeRow row' = Some (claim, items @ [?t])"
    unfolding row'_def using assms(1,2) blank_space by (intro row_decodes) simp_all
  show "includes_str row' (row_pat cid)"
    unfolding row'_def by (rule row_includes)
qed

lemma append_noop:
  assumes "\<forall>l\<in>set (split_str content [nl]). \<not> includes_str l (row_pat cid)"
  shows "appendRelevance cid newText (Some content) = Some content"
proof -
  have "map (append_line cid (sanitize newText)) (split_str content [nl]) = split_str content [nl]"
    using assms append_line_miss by (rule map_miss)
  moreover have "join_str (split_str content [nl]) [nl] = content"
    by (rule join_split) simp
  ultimately show ?thesis
    by (simp add: appendRelevance_def Let_def)
qed

lemma splice1_ok: "\<forall>x\<in>set items. item_ok x \<Longrightarrow> \<forall>x\<in>set (splice1 k items). item_ok x"
  using splice1_set[of k items] by blast

lemma remove_row_at:
  assumes "sanitize cid = cid" "sanitize claim = claim" "\<forall>x\<in>set items. item_ok x"
    "blank p1" "blank p2"
    "split_str content [nl] = pre @ row_line cid claim (p1 @ join_str items SEPARATOR @ p2) # post"
  shows "\<exists>row'. map_option (\<lambda>out. split_str out [nl]) (removeRelevanceItem cid k (Some content))
        = Some (map (remove_line cid k) pre @ row' # map (remove_line cid k) post)
      \<and> includes_str row' (row_pat cid)
      \<and> decodeRow row' = Some (claim, splice1 k items)"
proof -
  note c = sanitized_props[OF assms(1)] and n = sanitized_props[OF assms(2)]
  from removeRelevanceItem_lines[of cid k content] obtain out
    where o: "removeRelevanceItem cid k (Some content) = Some out"
      and l: "split_str out [nl] = map (remove_line cid k) (split_str content [nl])"
    by blast
  from remove_row[OF c(1) n(1) assms(3,4,5), of k] obtain r1 r2
    where b: "blank r1" "blank r2"
      and r: "remove_line cid k (row_line cid claim (p1 @ join_str items SEPARATOR @ p2))
        = row_line cid claim (r1 @ join_str (splice1 k items) SEPARATOR @ r2)"
    by blast
  let ?row' = "row_line cid claim (r1 @ join_str (splice1 k items) SEPARATOR @ r2)"
  have 1: "map_option (\<lambda>out. split_str out [nl]) (removeRelevanceItem cid k (Some content))
        = Some (map (remove_line cid k) pre @ ?row' # map (remove_line cid k) post)"
    unfolding o using l r by (simp add: assms(6))
  have 2: "includes_str ?row' (row_pat cid)"
    by (rule row_includes)
  have 3: "decodeRow ?row' = Some (claim, splice1 k items)"
    using assms(1,2) splice1_ok[OF assms(3)] b by (rule row_decodes)
  from 1 2 3 show ?thesis
    by blast
qed

text \<open>
  Claim C3, as amended. Take any line of the store that is a row of the given id: a
  line \<open>| id | claim |cell|\<close> with a sanitized id and claim, whose cell holds, between any
  blanks, zero or more items joined by the in-cell separator, each item sanitized,
  non-empty and free of the token \<open><br>\<close>. For a text whose sanitized form is non-empty
  and free of the token \<open><br>\<close>, appending rewrites that line, in its position, to the
  row of the old items followed by the sanitized text, joined by the in-cell separator
  (the text alone if the cell was empty): it decodes to the same claim and the old item
  sequence with the new item at the end. When no line before it contains \<open>| id |\<close> with
  at least four fields, the lines before it are written back as they were and reading
  the id gives the old items before and the extended sequence after. When the store
  file is absent, or no line contains \<open>| id |\<close>, the store is left as it was.
\<close>

theorem appendRelevance_appends:
  "(sanitize cid = cid \<and> sanitize claim = claim \<and> (\<forall>x\<in>set items. item_ok x)
      \<and> blank p1 \<and> blank p2 \<and> item_ok (sanitize newText)
      \<and> split_str content [nl]
          = pre @ row_line cid claim (p1 @ join_str items SEPARATOR @ p2) # post
    \<longrightarrow> decodeRow (row_line cid claim (p1 @ join_str items SEPARATOR @ p2)) = Some (claim, items)
      \<and> map_option (\<lambda>out. split_str out [nl]) (appendRelevance cid newText (Some content))
          = Some (map (append_line cid (sanitize newText)) pre
              @ row_line cid claim
                  ((if items = [] then ''  '' else '' '')
                    @ join_str (items @ [sanitize newText]) SEPARATOR @ '' '')
              # map (append_line cid (sanitize newText)) post)
      \<and> decodeRow (row_line cid claim
            ((if items = [] then ''  '' else '' '')
              @ join_str (items @ [sanitize newText]) SEPARATOR @ '' ''))
          = Some (claim, items @ [sanitize newText])
      \<and> ((\<forall>x\<in>set pre. \<not> (includes_str x (row_pat cid) \<and> 4 \<le> length (split_str x ''|'')))
        \<longrightarrow> map (append_line cid (sanitize newText)) pre = pre
          \<and> getRelevanceData cid (Some content) = Some (claim, items)
          \<and> getRelevanceData cid (appendRelevance cid newText (Some content))
              = Some (claim, items @ [sanitize newText])))
   \<and> appendRelevance cid newText None = None
   \<and> ((\<forall>l\<in>set (split_str content [nl]). \<not> includes_str l (row_pat cid))
      \<longrightarrow> appendRelevance cid newText (Some content) = Some content)"
proof (intro conjI impI)
  show "appendRelevance cid newText None = None"
    by (simp add: appendRelevance_def)
next
  assume "\<forall>l\<in>set (split_str content [nl]). \<not> includes_str l (row_pat cid)"
  then show "appendRelevance cid newText (Some content) = Some content"
    by (rule append_noop)
next
  let ?t = "sanitize newText"
  let ?row = "row_line cid claim (p1 @ join_str items SEPARATOR @ p2)"
  let ?row' = "row_line cid claim ((if items = [] then ''  '' else '' '')
      @ join_str (items @ [?t]) SEPARATOR @ '' '')"
  assume a: "sanitize cid = cid \<and> sanitize claim = claim \<and> (\<forall>x\<in>set items. item_ok x)
      \<and> blank p1 \<and> blank p2 \<and> item_ok (sanitize newText)
      \<and> split_str content [nl] = pre @ ?row # post"
  then have h: "sanitize cid = cid" "sanitize claim = claim" "\<forall>x\<in>set items. item_ok x"
    "blank p1" "blank p2" "item_ok (sanitize newText)"
    "split_str content [nl] = pre @ ?row # post"
    by blast+
  show d: "decodeRow ?row = Some (claim, items)"
    using h(1,2,3,4,5) by (rule row_decodes)
  show m: "map_option (\<lambda>out. split_str out [nl]) (appendRelevance cid newText (Some content))
      = Some (map (append_line cid ?t) pre @ ?row' # map (append_line cid ?t) post)"
    using h by (rule append_row_at(1))
  show d': "decodeRow ?row' = Some (claim, items @ [?t])"
    using h by (rule append_row_at(2))
  assume p: "\<forall>x\<in>set pre. \<not> (includes_str x (row_pat cid) \<and> 4 \<le> length (split_str x ''|''))"
  show e: "map (append_line cid ?t) pre = pre"
    using p append_line_miss append_line_short by (rule map_pass)
  have "find_row cid (pre @ ?row # post) = Some (claim, items)"
    using p row_includes d by (rule read_first)
  then show "getRelevanceData cid (Some content) = Some (claim, items)"
    by (simp add: getRelevanceData_def h(7))
  from appendRelevance_lines[of cid newText content] obtain out
    where o: "appendRelevance cid newText (Some content) = Some out"
    by blast
  with m e have l: "split_str out [nl] = pre @ ?row' # map (append_line cid ?t) post"
    by simp
  have "find_row cid (pre @ ?row' # map (append_line cid ?t) post) = Some (claim, items @ [?t])"
    using p row_includes d' by (rule read_first)
  then show "getRelevanceData cid (appendRelevance cid newText (Some content))
      = Some (claim, items @ [?t])"
    unfolding o by (simp add: getRelevanceData_def l)
qed

text \<open>
  The amended claim on the store that creating the connection of \<open>Claim A\<close> and
  \<open>Reason 1\<close> leaves: appending \<open>Reason 2\<close> gives the items \<open>Reason 1\<close>, \<open>Reason 2\<close>.
\<close>

theorem appendRelevance_appends_witness:
  "getRelevanceData ''123456''
     (appendRelevance ''123456'' ''Reason 2''
        (Some (header @ ''| 123456 | Claim A | Reason 1 |'' @ [nl])))
   = Some (''Claim A'', [''Reason 1'', ''Reason 2''])"
proof -
  let ?content = "header @ ''| 123456 | Claim A | Reason 1 |'' @ [nl]"
  let ?pre = "[''---'', ''cssclasses: fg-database'', ''---'', [], ''| ID | Claim | Relevance |'',
    ''|---|---|---|'']"
  have 1: "sanitize ''123456'' = ''123456''" by code_simp
  have 2: "sanitize ''Claim A'' = ''Claim A''" by code_simp
  have 3: "\<forall>x\<in>set [''Reason 1'']. item_ok x" by code_simp
  have 4: "blank '' ''" by code_simp
  have 5: "item_ok (sanitize ''Reason 2'')" by code_simp
  have 6: "split_str ?content [nl]
      = ?pre @ row_line ''123456'' ''Claim A'' ('' '' @ join_str [''Reason 1''] SEPARATOR @ '' '') # [[]]"
    by code_simp
  have 7: "\<forall>x\<in>set ?pre. \<not> (includes_str x (row_pat ''123456'') \<and> 4 \<le> length (split_str x ''|''))"
    by code_simp
  have 8: "sanitize ''Reason 2'' = ''Reason 2''" by code_simp
  from appendRelevance_appends[of "''123456''" "''Claim A''" "[''Reason 1'']" "'' ''" "'' ''"
      "''Reason 2''" ?content ?pre "[[]]"] 1 2 3 4 5 6 7
  have "getRelevanceData ''123456'' (appendRelevance ''123456'' ''Reason 2'' (Some ?content))
      = Some (''Claim A'', [''Reason 1''] @ [sanitize ''Reason 2''])"
    by blast
  then show ?thesis
    unfolding 8 by simp
qed

text \<open>
  The claim as stated fails when the sanitized text is empty, and when it contains the
  in-cell separator: the old items \<open>a\<close> become the one item \<open>a <br>\<close> in the first case,
  and three items in the second. It fails too on a row whose item contains the token of
  the separator: after the sanitized item \<open>a <br>\<close>, the new item \<open>n\<close> reads back as the
  items \<open>a\<close> and \<open><br> n\<close>.
\<close>

theorem appendRelevance_appends_counterexample:
  "getRelevanceData ''12'' (Some ''| 12 | c | a |'') = Some (''c'', [''a''])
   \<and> sanitize [] = []
   \<and> getRelevanceData ''12'' (appendRelevance ''12'' [] (Some ''| 12 | c | a |''))
     = Some (''c'', [''a <br>''])
   \<and> sanitize ''x <br> y'' = ''x <br> y''
   \<and> getRelevanceData ''12'' (appendRelevance ''12'' ''x <br> y'' (Some ''| 12 | c | a |''))
     = Some (''c'', [''a'', ''x'', ''y''])
   \<and> sanitize ''a <br>'' = ''a <br>'' \<and> sanitize ''n'' = ''n''
   \<and> getRelevanceData ''12'' (Some ''| 12 | c | a <br> |'') = Some (''c'', [''a <br>''])
   \<and> getRelevanceData ''12'' (appendRelevance ''12'' ''n'' (Some ''| 12 | c | a <br> |''))
     = Some (''c'', [''a'', ''<br> n''])"
  by code_simp

text \<open>
  Claim C4, as amended. Take any line of the store that is a row of the given id: a
  line \<open>| id | claim |cell|\<close> with a sanitized id and claim, whose cell holds, between any
  blanks, zero or more items joined by the in-cell separator, each item sanitized,
  non-empty and free of the token \<open><br>\<close>. Removing rewrites that line, in its position,
  to a line that contains \<open>| id |\<close> and decodes to the same claim and, at an index in
  range, to the items with exactly the item at that index deleted, the others in their
  order; at an index out of range (negative, or the number of items or more) it decodes
  to the same claim and the same items. When no line before it contains \<open>| id |\<close> with
  at least four fields, the lines before it are written back as they were and reading
  the id gives the old items before and these items after.
\<close>

theorem removeRelevanceItem_removes:
  "sanitize cid = cid \<and> sanitize claim = claim \<and> (\<forall>x\<in>set items. item_ok x)
      \<and> blank p1 \<and> blank p2
      \<and> split_str content [nl]
          = pre @ row_line cid claim (p1 @ join_str items SEPARATOR @ p2) # post
    \<longrightarrow> decodeRow (row_line cid claim (p1 @ join_str items SEPARATOR @ p2)) = Some (claim, items)
      \<and> (\<exists>row'. map_option (\<lambda>out. split_str out [nl]) (removeRelevanceItem cid k (Some content))
            = Some (map (remove_line cid k) pre @ row' # map (remove_line cid k) post)
          \<and> includes_str row' (row_pat cid)
          \<and> decodeRow row'
            = Some (claim,
                    if 0 \<le> k \<and> k < int (length items)
                    then take (nat k) items @ drop (Suc (nat k)) items
                    else items))
      \<and> ((\<forall>x\<in>set pre. \<not> (includes_str x (row_pat cid) \<and> 4 \<le> length (split_str x ''|'')))
        \<longrightarrow> map (remove_line cid k) pre = pre
          \<and> getRelevanceData cid (Some content) = Some (claim, items)
          \<and> getRelevanceData cid (removeRelevanceItem cid k (Some content))
              = Some (claim,
                      if 0 \<le> k \<and> k < int (length items)
                      then take (nat k) items @ drop (Suc (nat k)) items
                      else items))"
proof (intro conjI impI)
  let ?row = "row_line cid claim (p1 @ join_str items SEPARATOR @ p2)"
  let ?items' = "if 0 \<le> k \<and> k < int (length items)
    then take (nat k) items @ drop (Suc (nat k)) items else items"
  assume a: "sanitize cid = cid \<and> sanitize claim = claim \<and> (\<forall>x\<in>set items. item_ok x)
      \<and> blank p1 \<and> blank p2
      \<and> split_str content [nl] = pre @ ?row # post"
  then have h: "sanitize cid = cid" "sanitize claim = claim" "\<forall>x\<in>set items. item_ok x"
    "blank p1" "blank p2"
    "split_str content [nl] = pre @ ?row # post"
    by blast+
  have s: "splice1 k items = ?items'"
    by (simp add: splice1_def)
  show d: "decodeRow ?row = Some (claim, items)"
    using h(1,2,3,4,5) by (rule row_decodes)
  from remove_row_at[OF h, of k] obtain row'
    where m: "map_option (\<lambda>out. split_str out [nl]) (removeRelevanceItem cid k (Some content))
        = Some (map (remove_line cid k) pre @ row' # map (remove_line cid k) post)"
      and i: "includes_str row' (row_pat cid)"
      and d': "decodeRow row' = Some (claim, ?items')"
    unfolding s by blast
  from m i d' show "\<exists>row'. map_option (\<lambda>out. split_str out [nl])
          (removeRelevanceItem cid k (Some content))
        = Some (map (remove_line cid k) pre @ row' # map (remove_line cid k) post)
      \<and> includes_str row' (row_pat cid)
      \<and> decodeRow row' = Some (claim, ?items')"
    by blast
  assume p: "\<forall>x\<in>set pre. \<not> (includes_str x (row_pat cid) \<and> 4 \<le> length (split_str x ''|''))"
  show e: "map (remove_line cid k) pre = pre"
    using p remove_line_miss remove_line_short by (rule map_pass)
  have "find_row cid (pre @ ?row # post) = Some (claim, items)"
    using p row_includes d by (rule read_first)
  then show "getRelevanceData cid (Some content) = Some (claim, items)"
    by (simp add: getRelevanceData_def h(6))
  from removeRelevanceItem_lines[of cid k content] obtain out
    where o: "removeRelevanceItem cid k (Some content) = Some out"
    by blast
  with m e have l: "split_str out [nl] = pre @ row' # map (remove_line cid k) post"
    by simp
  have "find_row cid (pre @ row' # map (remove_line cid k) post) = Some (claim, ?items')"
    using p i d' by (rule read_first)
  then show "getRelevanceData cid (removeRelevanceItem cid k (Some content))
      = Some (claim, ?items')"
    unfolding o by (simp add: getRelevanceData_def l)
qed

text \<open>
  The amended claim on a row with the items \<open>a\<close>, \<open>b\<close>, \<open>c\<close>: the index 0 leaves \<open>b\<close>, \<open>c\<close>,
  and the index 5 leaves the three items.
\<close>

theorem removeRelevanceItem_removes_witness:
  "getRelevanceData ''123456''
     (removeRelevanceItem ''123456'' 0 (Some ''| 123456 | Claim A | a <br> b <br> c |''))
     = Some (''Claim A'', [''b'', ''c''])
   \<and> getRelevanceData ''123456''
     (removeRelevanceItem ''123456'' 5 (Some ''| 123456 | Claim A | a <br> b <br> c |''))
     = Some (''Claim A'', [''a'', ''b'', ''c''])"
proof -
  let ?content = "''| 123456 | Claim A | a <br> b <br> c |''"
  have 1: "sanitize ''123456'' = ''123456''" by code_simp
  have 2: "sanitize ''Claim A'' = ''Claim A''" by code_simp
  have 3: "\<forall>x\<in>set [''a'', ''b'', ''c'']. item_ok x" by code_simp
  have 4: "blank '' ''" by code_simp
  have 6: "split_str ?content [nl]
      = [] @ row_line ''123456'' ''Claim A'' ('' '' @ join_str [''a'', ''b'', ''c''] SEPARATOR @ '' '') # []"
    by code_simp
  have 7: "\<forall>x\<in>set []. \<not> (includes_str x (row_pat ''123456'') \<and> 4 \<le> length (split_str x ''|''))"
    by simp
  from removeRelevanceItem_removes[of "''123456''" "''Claim A''" "[''a'', ''b'', ''c'']" "'' ''" "'' ''"
      ?content "[]" "[]" 0] 1 2 3 4 6 7
  have a: "getRelevanceData ''123456'' (removeRelevanceItem ''123456'' 0 (Some ?content))
      = Some (''Claim A'', [''b'', ''c''])"
    by simp
  from removeRelevanceItem_removes[of "''123456''" "''Claim A''" "[''a'', ''b'', ''c'']" "'' ''" "'' ''"
      ?content "[]" "[]" 5] 1 2 3 4 6 7
  have b: "getRelevanceData ''123456'' (removeRelevanceItem ''123456'' 5 (Some ?content))
      = Some (''Claim A'', [''a'', ''b'', ''c''])"
    by simp
  from a b show ?thesis by blast
qed

text \<open>
  The claim as stated fails at an index out of range: the line of the row is written
  back with a blank more on each side of its cell, not unchanged. It fails too on a row
  whose item contains the token of the separator: the row of the sanitized item
  \<open>a <br>\<close> reads as the item \<open>a\<close> after removing at the index 5, and the row of the
  items \<open>x\<close> and \<open>a <br>\<close> reads as the item \<open>a\<close> after removing at the index 0.
\<close>

theorem removeRelevanceItem_removes_counterexample:
  "removeRelevanceItem ''12'' 5 (Some ''| 12 | c | a |'') = Some ''| 12 | c |  a  |''
   \<and> ''| 12 | c |  a  |'' \<noteq> ''| 12 | c | a |''
   \<and> sanitize ''a <br>'' = ''a <br>''
   \<and> getRelevanceData ''12'' (Some ''| 12 | c | a <br> |'') = Some (''c'', [''a <br>''])
   \<and> getRelevanceData ''12'' (removeRelevanceItem ''12'' 5 (Some ''| 12 | c | a <br> |''))
     = Some (''c'', [''a''])
   \<and> getRelevanceData ''12'' (Some ''| 12 | c | x <br> a <br> |'')
     = Some (''c'', [''x'', ''a <br>''])
   \<and> getRelevanceData ''12'' (removeRelevanceItem ''12'' 0 (Some ''| 12 | c | x <br> a <br> |''))
     = Some (''c'', [''a''])"
  by code_simp

lemma append_line_frame:
  "if includes_str l (row_pat cid) \<and> 4 \<le> length (split_str l ''|'')
   then split_str (append_line cid (sanitize newText) l) ''|'' = (split_str l ''|'')[3 :=
      '' '' @ trim (split_str l ''|'' ! 3)
        @ (if length (trim (split_str l ''|'' ! 3)) > 0 then SEPARATOR else '' '')
        @ sanitize newText @ '' '']
   else append_line cid (sanitize newText) l = l"
proof (cases "includes_str l (row_pat cid) \<and> 4 \<le> length (split_str l ''|'')")
  case True
  then have h: "includes_str l (row_pat cid)" "4 \<le> length (split_str l ''|'')"
    by blast+
  have "CHR ''|'' \<notin> set (sanitize newText)"
    using sanitize_chars[of newText] by blast
  with h show ?thesis
    unfolding if_P[OF True] by (rule append_line_fields)
next
  case False
  then have "\<not> includes_str l (row_pat cid) \<or> length (split_str l ''|'') < 4"
    by auto
  then have "append_line cid (sanitize newText) l = l"
    using append_line_miss append_line_short by blast
  then show ?thesis
    unfolding if_not_P[OF False] .
qed

lemma remove_line_frame:
  "if includes_str l (row_pat cid) \<and> 4 \<le> length (split_str l ''|'')
   then split_str (remove_line cid k l) ''|'' = (split_str l ''|'')[3 :=
      '' '' @ join_str (splice1 k (filter (\<lambda>s. length (trim s) > 0)
          (split_str (split_str l ''|'' ! 3) SEPARATOR))) SEPARATOR @ '' '']
   else remove_line cid k l = l"
proof (cases "includes_str l (row_pat cid) \<and> 4 \<le> length (split_str l ''|'')")
  case True
  then have h: "includes_str l (row_pat cid)" "4 \<le> length (split_str l ''|'')"
    by blast+
  from h show ?thesis
    unfolding if_P[OF True] by (rule remove_line_fields)
next
  case False
  then have "\<not> includes_str l (row_pat cid) \<or> length (split_str l ''|'') < 4"
    by auto
  then have "remove_line cid k l = l"
    using remove_line_miss remove_line_short by blast
  then show ?thesis
    unfolding if_not_P[OF False] .
qed

lemma list_all2_map_same: "(\<And>x. P x (f x)) \<Longrightarrow> list_all2 P xs (map f xs)"
  by (simp add: list_all2_map2 list_all2_same)

text \<open>
  Claim C10, as amended. Appending an item or removing one on an existing store file
  writes back as many lines as it read, each in its position: a line that does not
  contain \<open>| id |\<close>, or that contains it and has fewer than four fields between \<open>|\<close>, is
  written back identical; every line that contains \<open>| id |\<close> and has at least four
  fields, not only the first such line, is written back with its fourth field replaced
  by the edited cell and its other fields as they were.
\<close>

theorem item_edit_frame:
  "(\<exists>out. appendRelevance cid newText (Some content) = Some out
      \<and> list_all2 (\<lambda>l l'.
          if includes_str l (row_pat cid) \<and> 4 \<le> length (split_str l ''|'')
          then split_str l' ''|'' = (split_str l ''|'')[3 :=
            '' '' @ trim (split_str l ''|'' ! 3)
              @ (if length (trim (split_str l ''|'' ! 3)) > 0 then SEPARATOR else '' '')
              @ sanitize newText @ '' '']
          else l' = l)
        (split_str content [nl]) (split_str out [nl]))
   \<and> (\<exists>out. removeRelevanceItem cid k (Some content) = Some out
      \<and> list_all2 (\<lambda>l l'.
          if includes_str l (row_pat cid) \<and> 4 \<le> length (split_str l ''|'')
          then split_str l' ''|'' = (split_str l ''|'')[3 :=
            '' '' @ join_str (splice1 k (filter (\<lambda>s. length (trim s) > 0)
                (split_str (split_str l ''|'' ! 3) SEPARATOR))) SEPARATOR @ '' '']
          else l' = l)
        (split_str content [nl]) (split_str out [nl]))"
proof (rule conjI)
  from appendRelevance_lines[of cid newText content] obtain out
    where o: "appendRelevance cid newText (Some content) = Some out"
      and l: "split_str out [nl] = map (append_line cid (sanitize newText)) (split_str content [nl])"
    by blast
  have "list_all2 (\<lambda>l l'.
          if includes_str l (row_pat cid) \<and> 4 \<le> length (split_str l ''|'')
          then split_str l' ''|'' = (split_str l ''|'')[3 :=
            '' '' @ trim (split_str l ''|'' ! 3)
              @ (if length (trim (split_str l ''|'' ! 3)) > 0 then SEPARATOR else '' '')
              @ sanitize newText @ '' '']
          else l' = l)
        (split_str content [nl]) (split_str out [nl])"
    unfolding l by (rule list_all2_map_same) (rule append_line_frame)
  with o show "\<exists>out. appendRelevance cid newText (Some content) = Some out
      \<and> list_all2 (\<lambda>l l'.
          if includes_str l (row_pat cid) \<and> 4 \<le> length (split_str l ''|'')
          then split_str l' ''|'' = (split_str l ''|'')[3 :=
            '' '' @ trim (split_str l ''|'' ! 3)
              @ (if length (trim (split_str l ''|'' ! 3)) > 0 then SEPARATOR else '' '')
              @ sanitize newText @ '' '']
          else l' = l)
        (split_str content [nl]) (split_str out [nl])"
    by blast
next
  from removeRelevanceItem_lines[of cid k content] obtain out
    where o: "removeRelevanceItem cid k (Some content) = Some out"
      and l: "split_str out [nl] = map (remove_line cid k) (split_str content [nl])"
    by blast
  have "list_all2 (\<lambda>l l'.
          if includes_str l (row_pat cid) \<and> 4 \<le> length (split_str l ''|'')
          then split_str l' ''|'' = (split_str l ''|'')[3 :=
            '' '' @ join_str (splice1 k (filter (\<lambda>s. length (trim s) > 0)
                (split_str (split_str l ''|'' ! 3) SEPARATOR))) SEPARATOR @ '' '']
          else l' = l)
        (split_str content [nl]) (split_str out [nl])"
    unfolding l by (rule list_all2_map_same) (rule remove_line_frame)
  with o show "\<exists>out. removeRelevanceItem cid k (Some content) = Some out
      \<and> list_all2 (\<lambda>l l'.
          if includes_str l (row_pat cid) \<and> 4 \<le> length (split_str l ''|'')
          then split_str l' ''|'' = (split_str l ''|'')[3 :=
            '' '' @ join_str (splice1 k (filter (\<lambda>s. length (trim s) > 0)
                (split_str (split_str l ''|'' ! 3) SEPARATOR))) SEPARATOR @ '' '']
          else l' = l)
        (split_str content [nl]) (split_str out [nl])"
    by blast
qed

text \<open>
  The amended claim on a store with two rows of the id 12 around a row of the id 34:
  both rows of 12 get the new item, the row of 34 is written back as it was.
\<close>

theorem item_edit_frame_witness:
  "map_option (\<lambda>out. split_str out [nl])
     (appendRelevance ''12'' ''n''
        (Some (''| 12 | c | a |'' @ [nl] @ ''| 34 | d | e |'' @ [nl] @ ''| 12 | c | b |'')))
   = Some [''| 12 | c | a <br> n |'', ''| 34 | d | e |'', ''| 12 | c | b <br> n |'']"
proof -
  let ?content = "''| 12 | c | a |'' @ [nl] @ ''| 34 | d | e |'' @ [nl] @ ''| 12 | c | b |''"
  from item_edit_frame[of "''12''" "''n''" ?content 0] obtain out
    where o: "appendRelevance ''12'' ''n'' (Some ?content) = Some out"
      and l: "list_all2 (\<lambda>l l'.
          if includes_str l (row_pat ''12'') \<and> 4 \<le> length (split_str l ''|'')
          then split_str l' ''|'' = (split_str l ''|'')[3 :=
            '' '' @ trim (split_str l ''|'' ! 3)
              @ (if length (trim (split_str l ''|'' ! 3)) > 0 then SEPARATOR else '' '')
              @ sanitize ''n'' @ '' '']
          else l' = l)
        (split_str ?content [nl]) (split_str out [nl])"
    by blast
  have s: "split_str ?content [nl] = [''| 12 | c | a |'', ''| 34 | d | e |'', ''| 12 | c | b |'']"
    by code_simp
  from l obtain l0 l1 l2 where ls: "split_str out [nl] = [l0, l1, l2]"
    unfolding s by (auto simp: list_all2_Cons1)
  have i: "includes_str ''| 12 | c | a |'' (row_pat ''12'')"
    "\<not> includes_str ''| 34 | d | e |'' (row_pat ''12'')"
    "includes_str ''| 12 | c | b |'' (row_pat ''12'')"
    by code_simp+
  have p: "split_str ''| 12 | c | a |'' ''|'' = [[], '' 12 '', '' c '', '' a '', []]"
    "split_str ''| 12 | c | b |'' ''|'' = [[], '' 12 '', '' c '', '' b '', []]"
    by code_simp+
  have t: "trim '' a '' = ''a''" "trim '' b '' = ''b''" "sanitize ''n'' = ''n''"
    by code_simp+
  from l have f: "split_str l0 ''|'' = [[], '' 12 '', '' c '', '' a <br> n '', []]"
    "l1 = ''| 34 | d | e |''"
    "split_str l2 ''|'' = [[], '' 12 '', '' c '', '' b <br> n '', []]"
    unfolding s ls by (simp_all add: i p t SEPARATOR_def del: includes_str.simps split_str.simps)
  have "join_str (split_str l0 ''|'') ''|'' = l0" "join_str (split_str l2 ''|'') ''|'' = l2"
    by (rule join_split, simp)+
  then have "l0 = ''| 12 | c | a <br> n |''" "l2 = ''| 12 | c | b <br> n |''"
    unfolding f by simp_all
  with f(2) ls o show ?thesis
    by simp
qed

text \<open>
  The claim as stated fails on a line that contains \<open>| id |\<close> and has three fields: it is
  written back as it was, while the row of the id after it is rewritten.
\<close>

theorem item_edit_frame_counterexample:
  "includes_str ''x| 12 |y'' (row_pat ''12'')
   \<and> appendRelevance ''12'' ''n'' (Some (''x| 12 |y'' @ [nl] @ ''| 12 | c | a |''))
     = Some (''x| 12 |y'' @ [nl] @ ''| 12 | c | a <br> n |'')
   \<and> removeRelevanceItem ''12'' 0 (Some (''x| 12 |y'' @ [nl] @ ''| 12 | c | a |''))
     = Some (''x| 12 |y'' @ [nl] @ ''| 12 | c |  |'')"
  by code_simp


section \<open>Deleting and reading rows\<close>

lemma delete_rows_lines:
  fixes cid content
  defines "keep \<equiv> filter (\<lambda>l. \<not> includes_str l (row_pat cid)) (split_str content [nl])"
  shows "delete_rows cid (Some content) = Some (join_str keep [nl])"
    and "keep \<noteq> [] \<Longrightarrow> split_str (join_str keep [nl]) [nl] = keep"
    and "keep = [] \<Longrightarrow> join_str keep [nl] = []"
proof -
  show "delete_rows cid (Some content) = Some (join_str keep [nl])"
    by (simp add: delete_rows_def keep_def)
  have "\<forall>x\<in>set keep. nl \<notin> set x"
    using split_parts_free[of _ content nl] by (auto simp: keep_def)
  then show "keep \<noteq> [] \<Longrightarrow> split_str (join_str keep [nl]) [nl] = keep"
    by (intro split_join_char)
  show "keep = [] \<Longrightarrow> join_str keep [nl] = []"
    by simp
qed

lemma row_pat_ne: "row_pat cid \<noteq> []"
  by (simp add: row_pat_def)

text \<open>
  Claim C5. Deleting a connection leaves an absent store file absent; on a store file it
  writes back exactly the lines that do not contain \<open>| id |\<close>, each identical and in the
  original relative order (the empty file if no line is left), so that every line
  containing \<open>| id |\<close> is removed, not just the first, and no line of the new file
  contains it.
\<close>

theorem deleteConnection_deletes_rows:
  "fst (deleteConnection cid None view) = None
   \<and> (\<exists>out. fst (deleteConnection cid (Some content) view) = Some out
        \<and> (if filter (\<lambda>l. \<not> includes_str l (row_pat cid)) (split_str content [nl]) = []
           then out = []
           else split_str out [nl]
             = filter (\<lambda>l. \<not> includes_str l (row_pat cid)) (split_str content [nl]))
        \<and> \<not> list_ex (\<lambda>l. includes_str l (row_pat cid)) (split_str out [nl]))"
proof (rule conjI)
  show "fst (deleteConnection cid None view) = None"
    by (simp add: deleteConnection_def delete_rows_def)
next
  let ?keep = "filter (\<lambda>l. \<not> includes_str l (row_pat cid)) (split_str content [nl])"
  let ?out = "join_str ?keep [nl]"
  have o: "fst (deleteConnection cid (Some content) view) = Some ?out"
    using delete_rows_lines(1)[of cid content] by (simp add: deleteConnection_def)
  have k: "if ?keep = [] then ?out = [] else split_str ?out [nl] = ?keep"
    using delete_rows_lines(2,3)[of cid content] by simp
  have "\<not> list_ex (\<lambda>l. includes_str l (row_pat cid)) (split_str ?out [nl])"
  proof (cases "?keep = []")
    case True
    then have "split_str ?out [nl] = [[]]"
      by simp
    then show ?thesis
      using row_pat_ne[of cid] by simp
  next
    case False
    with k have "split_str ?out [nl] = ?keep"
      by simp
    then show ?thesis
      by (simp add: list_ex_iff)
  qed
  with o k show "\<exists>out. fst (deleteConnection cid (Some content) view) = Some out
        \<and> (if ?keep = [] then out = [] else split_str out [nl] = ?keep)
        \<and> \<not> list_ex (\<lambda>l. includes_str l (row_pat cid)) (split_str out [nl])"
    by blast
qed

text \<open>On a store with two rows of the id 123 around a row of the id 124.\<close>

theorem deleteConnection_deletes_rows_witness:
  "fst (deleteConnection ''123''
     (Some (''| 123 | c | a |'' @ [nl] @ ''| 124 | c | a |'' @ [nl] @ ''| 123 | d | b |'')) None)
   = Some ''| 124 | c | a |''"
proof -
  let ?content = "''| 123 | c | a |'' @ [nl] @ ''| 124 | c | a |'' @ [nl] @ ''| 123 | d | b |''"
  have k: "filter (\<lambda>l. \<not> includes_str l (row_pat ''123'')) (split_str ?content [nl])
      = [''| 124 | c | a |'']"
    by code_simp
  from deleteConnection_deletes_rows[of "''123''" None ?content] obtain out
    where o: "fst (deleteConnection ''123'' (Some ?content) None) = Some out"
      and l: "split_str out [nl] = [''| 124 | c | a |'']"
    unfolding k by auto
  have "join_str (split_str out [nl]) [nl] = out"
    by (rule join_split) simp
  then have "out = ''| 124 | c | a |''"
    unfolding l by simp
  with o show ?thesis by simp
qed

lemma decodeRow_fields:
  assumes "4 \<le> length (split_str l ''|'')"
  shows "decodeRow l = Some (trim (split_str l ''|'' ! 2),
    filter (\<lambda>s. length (trim s) > 0) (split_str (trim (split_str l ''|'' ! 3)) SEPARATOR))"
proof -
  have n: "map trim (split_str l ''|'') ! 3 = trim (split_str l ''|'' ! 3)"
    "map trim (split_str l ''|'') ! 2 = trim (split_str l ''|'' ! 2)"
    using assms by (simp_all del: split_str.simps)
  show ?thesis
  proof (cases "trim (split_str l ''|'' ! 3) = []")
    case True
    have "filter (\<lambda>s. length (trim s) > 0) (split_str [] SEPARATOR) = []"
      by (simp add: SEPARATOR_def trim_Nil)
    with True assms n show ?thesis
      by (simp add: decodeRow_def Let_def del: split_str.simps)
  next
    case False
    with assms n show ?thesis
      by (simp add: decodeRow_def Let_def del: split_str.simps)
  qed
qed

text \<open>
  Claim C6, as amended. Reading a row returns none when the store file does not exist,
  and when no line both contains \<open>| id |\<close> and has at least four fields between \<open>|\<close>;
  otherwise it returns, for the first such line from the top, the trimmed third field as
  the claim and the pieces of the trimmed fourth field between the in-cell separators,
  without the blank ones, as the items. Later lines with the same id are not looked at.
\<close>

theorem getRelevanceData_first_match:
  "getRelevanceData cid None = None
   \<and> ((\<forall>x\<in>set (split_str content [nl]).
          \<not> (includes_str x (row_pat cid) \<and> 4 \<le> length (split_str x ''|'')))
      \<longrightarrow> getRelevanceData cid (Some content) = None)
   \<and> (split_str content [nl] = pre @ l # post
        \<and> (\<forall>x\<in>set pre. \<not> (includes_str x (row_pat cid) \<and> 4 \<le> length (split_str x ''|'')))
        \<and> includes_str l (row_pat cid) \<and> 4 \<le> length (split_str l ''|'')
      \<longrightarrow> getRelevanceData cid (Some content)
          = Some (trim (split_str l ''|'' ! 2),
                  filter (\<lambda>s. length (trim s) > 0)
                    (split_str (trim (split_str l ''|'' ! 3)) SEPARATOR)))"
proof (intro conjI impI)
  show "getRelevanceData cid None = None"
    by (simp add: getRelevanceData_def)
next
  assume "\<forall>x\<in>set (split_str content [nl]).
    \<not> (includes_str x (row_pat cid) \<and> 4 \<le> length (split_str x ''|''))"
  from find_row_pass[OF this, of "[]"]
  show "getRelevanceData cid (Some content) = None"
    by (simp add: getRelevanceData_def)
next
  assume a: "split_str content [nl] = pre @ l # post
        \<and> (\<forall>x\<in>set pre. \<not> (includes_str x (row_pat cid) \<and> 4 \<le> length (split_str x ''|'')))
        \<and> includes_str l (row_pat cid) \<and> 4 \<le> length (split_str l ''|'')"
  then have s: "split_str content [nl] = pre @ l # post"
    and p: "\<forall>x\<in>set pre. \<not> (includes_str x (row_pat cid) \<and> 4 \<le> length (split_str x ''|''))"
    and i: "includes_str l (row_pat cid)" and f: "4 \<le> length (split_str l ''|'')"
    by blast+
  have "find_row cid (pre @ l # post) = find_row cid (l # post)"
    using p by (rule find_row_pass)
  also have "\<dots> = decodeRow l"
    using i decodeRow_fields[OF f] by simp
  finally show "getRelevanceData cid (Some content)
          = Some (trim (split_str l ''|'' ! 2),
                  filter (\<lambda>s. length (trim s) > 0)
                    (split_str (trim (split_str l ''|'' ! 3)) SEPARATOR))"
    using decodeRow_fields[OF f] by (simp add: getRelevanceData_def s)
qed

text \<open>
  On a store whose second line contains \<open>| 12 |\<close> with three fields, before two rows of
  the id 12: the first of the two rows is read.
\<close>

theorem getRelevanceData_first_match_witness:
  "getRelevanceData ''12''
     (Some (''| 34 | d | e |'' @ [nl] @ ''x| 12 |y'' @ [nl] @ ''| 12 | c | a <br> b |'' @ [nl]
        @ ''| 12 | z | w |''))
   = Some (''c'', [''a'', ''b''])"
proof -
  let ?content = "''| 34 | d | e |'' @ [nl] @ ''x| 12 |y'' @ [nl] @ ''| 12 | c | a <br> b |'' @ [nl]
        @ ''| 12 | z | w |''"
  have 1: "split_str ?content [nl]
      = [''| 34 | d | e |'', ''x| 12 |y''] @ ''| 12 | c | a <br> b |'' # [''| 12 | z | w |'']"
    by code_simp
  have 2: "\<forall>x\<in>set [''| 34 | d | e |'', ''x| 12 |y''].
      \<not> (includes_str x (row_pat ''12'') \<and> 4 \<le> length (split_str x ''|''))"
    by code_simp
  have 3: "includes_str ''| 12 | c | a <br> b |'' (row_pat ''12'')"
    by code_simp
  have 4: "4 \<le> length (split_str ''| 12 | c | a <br> b |'' ''|'')"
    by code_simp
  have 5: "(trim (split_str ''| 12 | c | a <br> b |'' ''|'' ! 2),
      filter (\<lambda>s. length (trim s) > 0)
        (split_str (trim (split_str ''| 12 | c | a <br> b |'' ''|'' ! 3)) SEPARATOR))
      = (''c'', [''a'', ''b''])"
    by code_simp
  from getRelevanceData_first_match[of "''12''" ?content "[''| 34 | d | e |'', ''x| 12 |y'']"
      "''| 12 | c | a <br> b |''" "[''| 12 | z | w |'']"] 1 2 3 4
  have "getRelevanceData ''12'' (Some ?content)
      = Some (trim (split_str ''| 12 | c | a <br> b |'' ''|'' ! 2),
          filter (\<lambda>s. length (trim s) > 0)
            (split_str (trim (split_str ''| 12 | c | a <br> b |'' ''|'' ! 3)) SEPARATOR))"
    by blast
  then show ?thesis
    unfolding 5 .
qed

text \<open>
  The claim as stated fails when the first line that contains \<open>| id |\<close> has fewer than
  four fields: that line decodes to nothing, and the row after it is returned.
\<close>

theorem getRelevanceData_first_match_counterexample:
  "split_str (''x| 12 |y'' @ [nl] @ ''| 12 | c | a |'') [nl] = [''x| 12 |y'', ''| 12 | c | a |'']
   \<and> includes_str ''x| 12 |y'' (row_pat ''12'')
   \<and> decodeRow ''x| 12 |y'' = None
   \<and> getRelevanceData ''12'' (Some (''x| 12 |y'' @ [nl] @ ''| 12 | c | a |''))
     = Some (''c'', [''a''])"
  by code_simp


section \<open>Stripping the marker\<close>

lemma marker_Cons: "marker cid = CHR ''('' # ''fg:'' @ cid @ '')''"
  by (simp add: marker_def)

lemma marker_ne: "marker cid \<noteq> []"
  by (simp add: marker_def)

lemma marker_snoc: "marker cid = butlast (marker cid) @ [last (marker cid)]"
  using marker_ne[of cid] by simp

lemma dropWhile_marker: "dropWhile is_hspace (marker cid @ b) = marker cid @ b"
  by (simp add: marker_Cons is_hspace_def)

lemma match_tag_blanks:
  assumes "list_all is_hspace ws"
  shows "match_tag cid (ws @ marker cid @ b) = Some b"
proof -
  have "dropWhile is_hspace (ws @ marker cid @ b) = dropWhile is_hspace (marker cid @ b)"
    using assms by (intro dropWhile_append2) (simp add: list_all_iff)
  then have "dropWhile is_hspace (ws @ marker cid @ b) = marker cid @ b"
    by (simp only: dropWhile_marker)
  then show ?thesis
    by (simp add: match_tag_def)
qed

lemma match_tag_includes:
  assumes "match_tag cid s = Some r"
  shows "includes_str s (marker cid)"
proof -
  from assms have "prefix (marker cid) (dropWhile is_hspace s)"
    by (simp add: match_tag_def Let_def split: if_splits)
  then have "includes_str (dropWhile is_hspace s) (marker cid)"
    by (rule prefix_includes)
  then have "includes_str (takeWhile is_hspace s @ dropWhile is_hspace s) (marker cid)"
    by (rule includes_append_left)
  then show ?thesis by simp
qed

lemma replace_tags_none: "\<not> includes_str s (marker cid) \<Longrightarrow> replace_tags cid s = s"
proof (induction cid s rule: replace_tags.induct)
  case (1 cid)
  then show ?case by simp
next
  case (2 cid c cs)
  from 2(3) have n: "match_tag cid (c # cs) = None"
    using match_tag_includes[of cid "c # cs"] by (cases "match_tag cid (c # cs)") auto
  from 2(3) have "\<not> includes_str cs (marker cid)"
    by simp
  with 2(1,2) n show ?case
    by simp
qed

lemma match_tag_before:
  assumes "a \<noteq> []" "\<not> is_hspace (last a)" "list_all is_hspace ws"
    and "\<not> includes_str (a @ ws @ butlast (marker cid)) (marker cid)"
  shows "match_tag cid (a @ ws @ marker cid @ b) = None"
proof (rule ccontr)
  let ?m = "marker cid"
  define a' where "a' = dropWhile is_hspace a"
  assume "match_tag cid (a @ ws @ ?m @ b) \<noteq> None"
  then have p: "prefix ?m (dropWhile is_hspace (a @ ws @ ?m @ b))"
    by (simp add: match_tag_def Let_def split: if_splits)
  have l: "last a \<in> set a"
    using assms(1) by (rule last_in_set)
  from l assms(2) have d: "dropWhile is_hspace (a @ ws @ ?m @ b) = a' @ ws @ ?m @ b"
    unfolding a'_def by (rule dropWhile_append1)
  have "a' \<noteq> []"
    unfolding a'_def dropWhile_eq_Nil_conv using l assms(2) by blast
  then have "1 \<le> length a'"
    by (cases a') simp_all
  moreover have "length ?m = length (butlast ?m) + 1"
    using marker_ne[of cid] by simp
  moreover have "length (a' @ ws @ butlast ?m) = length a' + length ws + length (butlast ?m)"
    by (simp only: length_append add.assoc)
  ultimately have "length ?m \<le> length (a' @ ws @ butlast ?m)"
    by linarith
  then have i: "prefix ?m ((a' @ ws @ butlast ?m) @ ([last ?m] @ b)) \<longleftrightarrow> prefix ?m (a' @ ws @ butlast ?m)"
    by (rule prefix_long)
  have e: "a' @ ws @ ?m @ b = (a' @ ws @ butlast ?m) @ ([last ?m] @ b)"
    using marker_snoc[of cid] by (metis append_assoc)
  from p have "prefix ?m (a' @ ws @ ?m @ b)"
    unfolding d .
  then have "prefix ?m ((a' @ ws @ butlast ?m) @ ([last ?m] @ b))"
    unfolding e .
  with i have "prefix ?m (a' @ ws @ butlast ?m)"
    by blast
  then have "includes_str (a' @ ws @ butlast ?m) ?m"
    by (rule prefix_includes)
  then have "includes_str (takeWhile is_hspace a @ a' @ ws @ butlast ?m) ?m"
    by (rule includes_append_left)
  moreover have "takeWhile is_hspace a @ a' @ ws @ butlast ?m = a @ ws @ butlast ?m"
    unfolding a'_def by (simp only: takeWhile_dropWhile_id append_assoc[symmetric])
  ultimately show False
    using assms(4) by simp
qed

lemma replace_tags_first:
  assumes "a = [] \<or> \<not> is_hspace (last a)" "list_all is_hspace ws"
    and "\<not> includes_str (a @ ws @ butlast (marker cid)) (marker cid)"
  shows "replace_tags cid (a @ ws @ marker cid @ b) = a @ replace_tags cid b"
  using assms
proof (induction a)
  case Nil
  obtain c cs where e: "ws @ marker cid @ b = c # cs"
    using marker_ne[of cid] by (cases "ws @ marker cid @ b") auto
  have "match_tag cid (c # cs) = Some b"
    unfolding e[symmetric] using Nil.prems(2) by (rule match_tag_blanks)
  then have "replace_tags cid (c # cs) = replace_tags cid b"
    by simp
  then show ?case
    by (simp add: e)
next
  case (Cons x xs)
  from Cons.prems(1) have l: "\<not> is_hspace (last (x # xs))"
    by simp
  have n: "match_tag cid ((x # xs) @ ws @ marker cid @ b) = None"
    using l Cons.prems(2,3) by (intro match_tag_before) simp_all
  from l have 1: "xs = [] \<or> \<not> is_hspace (last xs)"
    by (cases xs) auto
  from Cons.prems(3) have 2: "\<not> includes_str (xs @ ws @ butlast (marker cid)) (marker cid)"
    by simp
  from Cons.IH[OF 1 Cons.prems(2) 2] n show ?case
    by simp
qed

lemma strip_loop_none:
  "\<forall>l\<in>set ls. \<not> includes_str l (marker cid) \<Longrightarrow> strip_loop cid i ls cur = (ls, cur)"
  by (induction ls arbitrary: i) auto

lemma strip_loop_first:
  "\<forall>l\<in>set pre. \<not> includes_str l (marker cid) \<Longrightarrow> includes_str l (marker cid) \<Longrightarrow>
   fst (strip_loop cid i (pre @ l # post) cur) = pre @ replace_tags cid l # post"
proof (induction pre arbitrary: i)
  case Nil
  then show ?case by (simp add: Let_def)
next
  case (Cons x pre)
  then have "fst (strip_loop cid i ((x # pre) @ l # post) cur)
      = x # fst (strip_loop cid (Suc i) (pre @ l # post) cur)"
    by (simp add: case_prod_beta)
  with Cons show ?case by simp
qed

text \<open>
  Claim C7. For an id of digits and a document whose first line containing \<open>(fg:id)\<close> is
  \<open>a\<close>, a run \<open>ws\<close> of blanks and tabs, the first marker of the line, and \<open>b\<close> (so \<open>a\<close>
  does not end with a blank or a tab): deleting the connection rewrites that line to \<open>a\<close>
  followed by \<open>b\<close>, when \<open>b\<close> has no further marker of the id, and otherwise by \<open>b\<close>
  without its markers; the lines before and all the lines after it, markers included,
  are as they were. A document without the marker is left as it is.
\<close>

theorem deleteConnection_strips_first_line:
  "(list_all is_digit cid
      \<and> doc_lines ed = pre @ (a @ ws @ marker cid @ b) # post
      \<and> (\<forall>l\<in>set pre. \<not> includes_str l (marker cid))
      \<and> (a = [] \<or> \<not> is_hspace (last a)) \<and> list_all is_hspace ws
      \<and> \<not> includes_str (a @ ws @ butlast (marker cid)) (marker cid)
    \<longrightarrow> map_option doc_lines (snd (deleteConnection cid relFile (Some ed)))
        = Some (pre @ (a @ (if includes_str b (marker cid) then replace_tags cid b else b)) # post))
   \<and> (list_all is_digit cid \<and> (\<forall>l\<in>set (doc_lines ed). \<not> includes_str l (marker cid))
    \<longrightarrow> snd (deleteConnection cid relFile (Some ed)) = Some ed)"
proof (intro conjI impI)
  assume "list_all is_digit cid \<and> (\<forall>l\<in>set (doc_lines ed). \<not> includes_str l (marker cid))"
  then have "strip_loop cid 0 (doc_lines ed) (cursor ed) = (doc_lines ed, cursor ed)"
    by (intro strip_loop_none) blast
  then show "snd (deleteConnection cid relFile (Some ed)) = Some ed"
    by (simp add: deleteConnection_def strip_marker_def)
next
  assume "list_all is_digit cid
      \<and> doc_lines ed = pre @ (a @ ws @ marker cid @ b) # post
      \<and> (\<forall>l\<in>set pre. \<not> includes_str l (marker cid))
      \<and> (a = [] \<or> \<not> is_hspace (last a)) \<and> list_all is_hspace ws
      \<and> \<not> includes_str (a @ ws @ butlast (marker cid)) (marker cid)"
  then have d: "doc_lines ed = pre @ (a @ ws @ marker cid @ b) # post"
    and p: "\<forall>l\<in>set pre. \<not> includes_str l (marker cid)"
    and a: "a = [] \<or> \<not> is_hspace (last a)" and w: "list_all is_hspace ws"
    and f: "\<not> includes_str (a @ ws @ butlast (marker cid)) (marker cid)"
    by blast+
  have "includes_str ((a @ ws) @ marker cid @ b) (marker cid)"
    by (rule includes_mid)
  then have i: "includes_str (a @ ws @ marker cid @ b) (marker cid)"
    by simp
  have r: "replace_tags cid (a @ ws @ marker cid @ b)
      = a @ (if includes_str b (marker cid) then replace_tags cid b else b)"
    using replace_tags_first[OF a w f, of b] replace_tags_none[of b cid] by simp
  have "fst (strip_loop cid 0 (doc_lines ed) (cursor ed))
      = pre @ replace_tags cid (a @ ws @ marker cid @ b) # post"
    unfolding d using p i by (rule strip_loop_first)
  then show "map_option doc_lines (snd (deleteConnection cid relFile (Some ed)))
        = Some (pre @ (a @ (if includes_str b (marker cid) then replace_tags cid b else b)) # post)"
    unfolding r by (simp add: deleteConnection_def strip_marker_def case_prod_beta)
qed

text \<open>
  On a document whose second line is \<open>  text (fg:123) more\<close> and whose third line has
  the marker too: the second line becomes \<open>  text more\<close>, the third is left.
\<close>

theorem deleteConnection_strips_first_line_witness:
  "map_option doc_lines
     (snd (deleteConnection ''123'' None
        (Some \<lparr>doc_lines = [''abc'', ''  text (fg:123) more'', ''z (fg:123)''], cursor = (0, 0)\<rparr>)))
   = Some [''abc'', ''  text more'', ''z (fg:123)'']"
proof -
  let ?ed = "\<lparr>doc_lines = [''abc'', ''  text (fg:123) more'', ''z (fg:123)''], cursor = (0, 0)\<rparr>"
  have 1: "list_all is_digit ''123''" by code_simp
  have 2: "doc_lines ?ed = [''abc''] @ (''  text'' @ '' '' @ marker ''123'' @ '' more'') # [''z (fg:123)'']"
    by (simp add: marker_def)
  have 3: "\<forall>l\<in>set [''abc'']. \<not> includes_str l (marker ''123'')" by code_simp
  have 4: "''  text'' = [] \<or> \<not> is_hspace (last ''  text'')" by code_simp
  have 5: "list_all is_hspace '' ''" by code_simp
  have 6: "\<not> includes_str (''  text'' @ '' '' @ butlast (marker ''123'')) (marker ''123'')" by code_simp
  have 7: "\<not> includes_str '' more'' (marker ''123'')" by code_simp
  from deleteConnection_strips_first_line[of "''123''" ?ed "[''abc'']" "''  text''" "'' ''" "'' more''"
      "[''z (fg:123)'']" None] 1 2 3 4 5 6
  have "map_option doc_lines (snd (deleteConnection ''123'' None (Some ?ed)))
      = Some ([''abc''] @ (''  text'' @ (if includes_str '' more'' (marker ''123'')
          then replace_tags ''123'' '' more'' else '' more'')) # [''z (fg:123)''])"
    by blast
  then show ?thesis
    unfolding if_not_P[OF 7] by simp
qed


section \<open>Scanning for markers\<close>

lemma digits_takeWhile:
  assumes "list_all is_digit ds"
  shows "takeWhile is_digit (ds @ CHR '')'' # r) = ds" "dropWhile is_digit (ds @ CHR '')'' # r) = CHR '')'' # r"
proof -
  have n: "\<not> is_digit CHR '')''"
    by (simp add: is_digit_def)
  from assms have a: "\<forall>y\<in>set ds. is_digit y"
    by (simp add: list_all_iff)
  from n a show "takeWhile is_digit (ds @ CHR '')'' # r) = ds"
    by (simp add: takeWhile_tail)
  have "dropWhile is_digit (ds @ CHR '')'' # r) = dropWhile is_digit (CHR '')'' # r)"
    using a by (intro dropWhile_append2) simp
  with n show "dropWhile is_digit (ds @ CHR '')'' # r) = CHR '')'' # r"
    by simp
qed

lemma match_marker_at:
  assumes "ds \<noteq> []" "list_all is_digit ds"
  shows "match_marker (marker ds @ r) = Some (ds, r)"
proof -
  have p: "prefix ''(fg:'' (marker ds @ r)"
    by (simp add: marker_def)
  have d: "drop 4 (marker ds @ r) = ds @ CHR '')'' # r"
    by (simp add: marker_def)
  show ?thesis
    unfolding match_marker_def Let_def d digits_takeWhile[OF assms(2)] if_P[OF p]
    using assms(1) by simp
qed

lemma match_marker_Some:
  assumes "match_marker s = Some (ds, r)"
  shows "s = marker ds @ r" "ds \<noteq> []" "list_all is_digit ds"
proof -
  let ?t = "drop 4 s"
  from assms have p: "prefix ''(fg:'' s" and ds: "ds = takeWhile is_digit ?t"
    and n: "ds \<noteq> []" and q: "prefix '')'' (dropWhile is_digit ?t)"
    and r: "r = drop 1 (dropWhile is_digit ?t)"
    by (auto simp: match_marker_def Let_def split: if_splits)
  from p have s: "s = ''(fg:'' @ ?t"
    by (auto simp: prefix_def)
  from q r have "dropWhile is_digit ?t = CHR '')'' # r"
    by (auto simp: prefix_def)
  then have "?t = ds @ CHR '')'' # r"
    unfolding ds by (metis takeWhile_dropWhile_id)
  with s show "s = marker ds @ r"
    by (simp add: marker_def)
  show "ds \<noteq> []" by (rule n)
  show "list_all is_digit ds"
    unfolding ds list_all_iff by (auto dest: set_takeWhileD)
qed

lemma marker_length: "length (marker ds) = length ds + 5"
  by (simp add: marker_def)

lemma marker_inner:
  assumes "list_all is_digit ds" "0 < p" "p < length (marker ds)"
  shows "marker ds ! p \<noteq> CHR ''(''"
proof -
  from assms(2) obtain q where q: "p = Suc q"
    by (cases p) auto
  with assms(3) have "q < length (''fg:'' @ ds @ '')'')"
    by (simp add: marker_def)
  then have "(''fg:'' @ ds @ '')'') ! q \<in> set (''fg:'' @ ds @ '')'')"
    by (rule nth_mem)
  moreover have "marker ds ! p = (''fg:'' @ ds @ '')'') ! q"
    unfolding marker_Cons q by simp
  ultimately have "marker ds ! p \<in> set (''fg:'' @ ds @ '')'')"
    by simp
  moreover have "\<not> is_digit CHR ''(''"
    by (simp add: is_digit_def)
  then have "CHR ''('' \<notin> set ds"
    using assms(1) unfolding list_all_iff by blast
  ultimately show ?thesis
    by auto
qed

lemma prefix_marker_hd:
  assumes "prefix (marker ds) (drop p s)"
  shows "p < length s" "s ! p = CHR ''(''"
proof -
  from assms obtain r where r: "drop p s = marker ds @ r"
    by (auto simp: prefix_def)
  then have "drop p s \<noteq> []"
    using marker_ne[of ds] by simp
  then show l: "p < length s"
    by simp
  from r have "hd (drop p s) = CHR ''(''"
    by (simp add: marker_Cons)
  with l show "s ! p = CHR ''(''"
    by (simp add: hd_drop_conv_nth)
qed

lemma marker_no_overlap:
  assumes "list_all is_digit d0" "prefix (marker ds) (drop p (marker d0 @ rest))" "0 < p"
  shows "length (marker d0) \<le> p"
proof (rule ccontr)
  assume "\<not> length (marker d0) \<le> p"
  then have l: "p < length (marker d0)"
    by simp
  then have "(marker d0 @ rest) ! p = marker d0 ! p"
    by (simp add: nth_append)
  with prefix_marker_hd(2)[OF assms(2)] have "marker d0 ! p = CHR ''(''"
    by simp
  with marker_inner[OF assms(1,3) l] show False
    by simp
qed

lemma exec_loop_sound:
  "(s, m0, m1) \<in> set (exec_loop i buf) \<Longrightarrow>
   i \<le> s \<and> m0 = marker m1 \<and> m1 \<noteq> [] \<and> list_all is_digit m1
     \<and> prefix m0 (drop (s - i) buf) \<and> s + length m0 \<le> i + length buf"
proof (induction i buf rule: exec_loop.induct)
  case (1 i)
  then show ?case by simp
next
  case (2 i c cs)
  show ?case
  proof (cases "match_marker (c # cs)")
    case None
    with 2(3) have "(s, m0, m1) \<in> set (exec_loop (Suc i) cs)"
      by simp
    from 2(1)[OF None this] have h: "Suc i \<le> s" "m0 = marker m1" "m1 \<noteq> []"
      "list_all is_digit m1" "prefix m0 (drop (s - Suc i) cs)"
      "s + length m0 \<le> Suc i + length cs"
      by blast+
    from h(1) have "s - i = Suc (s - Suc i)"
      by arith
    then have "drop (s - i) (c # cs) = drop (s - Suc i) cs"
      by simp
    with h show ?thesis
      by simp
  next
    case (Some x)
    obtain ds rest where x: "x = (ds, rest)"
      by (cases x)
    note m = match_marker_Some[OF Some[unfolded x]]
    from 2(3) Some x
    consider (here) "(s, m0, m1) = (i, marker ds, ds)"
      | (later) "(s, m0, m1) \<in> set (exec_loop (i + length (marker ds)) rest)"
      by auto
    then show ?thesis
    proof cases
      case here
      with m show ?thesis
        by (simp add: marker_length)
    next
      case later
      from 2(2)[OF Some x[symmetric] later] have h: "i + length (marker ds) \<le> s" "m0 = marker m1"
        "m1 \<noteq> []" "list_all is_digit m1"
        "prefix m0 (drop (s - (i + length (marker ds))) rest)"
        "s + length m0 \<le> i + length (marker ds) + length rest"
        by blast+
      have "drop (s - i) (c # cs) = drop (s - (i + length (marker ds))) rest"
        unfolding m(1) using h(1) by simp
      with h m(1) show ?thesis
        by simp
    qed
  qed
qed

lemma exec_loop_complete:
  "prefix (marker ds) (drop p buf) \<Longrightarrow> ds \<noteq> [] \<Longrightarrow> list_all is_digit ds \<Longrightarrow>
   (i + p, marker ds, ds) \<in> set (exec_loop i buf)"
proof (induction i buf arbitrary: p rule: exec_loop.induct)
  case (1 i)
  then show ?case
    using marker_ne[of ds] by simp
next
  case (2 i c cs)
  show ?case
  proof (cases "match_marker (c # cs)")
    case None
    have "p \<noteq> 0"
    proof
      assume "p = 0"
      with 2(3) obtain r where "c # cs = marker ds @ r"
        by (auto simp: prefix_def)
      with match_marker_at[OF 2(4,5), of r] None show False
        by simp
    qed
    then obtain q where q: "p = Suc q"
      by (cases p) auto
    with 2(3) have "prefix (marker ds) (drop q cs)"
      by simp
    from 2(1)[OF None this 2(4,5)] None q show ?thesis
      by simp
  next
    case (Some x)
    obtain d0 rest where x: "x = (d0, rest)"
      by (cases x)
    note m = match_marker_Some[OF Some[unfolded x]]
    show ?thesis
    proof (cases "p = 0")
      case True
      with 2(3) obtain r where "c # cs = marker ds @ r"
        by (auto simp: prefix_def)
      with match_marker_at[OF 2(4,5), of r] Some x have "d0 = ds"
        by simp
      with True Some x show ?thesis
        by simp
    next
      case False
      then have "0 < p" by simp
      with 2(3) have l: "length (marker d0) \<le> p"
        unfolding m(1) using m(3) by (intro marker_no_overlap)
      then have "drop p (c # cs) = drop (p - length (marker d0)) rest"
        unfolding m(1) by simp
      with 2(3) have "prefix (marker ds) (drop (p - length (marker d0)) rest)"
        by simp
      from 2(2)[OF Some x[symmetric] this 2(4,5)] l Some x show ?thesis
        by simp
    qed
  qed
qed

lemma exec_loop_sorted:
  "sorted_wrt (\<lambda>a b. fst a + length (fst (snd a)) \<le> fst b) (exec_loop i buf)"
proof (induction i buf rule: exec_loop.induct)
  case (1 i)
  then show ?case by simp
next
  case (2 i c cs)
  show ?case
  proof (cases "match_marker (c # cs)")
    case None
    with 2(1) show ?thesis by simp
  next
    case (Some x)
    obtain ds rest where x: "x = (ds, rest)"
      by (cases x)
    have "\<forall>b\<in>set (exec_loop (i + length (marker ds)) rest). i + length (marker ds) \<le> fst b"
      using exec_loop_sound by fastforce
    with 2(2)[OF Some x[symmetric]] Some x show ?thesis
      by simp
  qed
qed

lemma buildDecorations_one:
  "buildDecorations doc [(from, to)]
    = map (\<lambda>(index, m0, m1). (from + index, from + index + length m0, m1))
        (exec_loop 0 (sliceString doc from to))"
  by (simp add: buildDecorations_def)

lemma slice_drop:
  "drop k (sliceString doc from to) = take (to - (from + k)) (drop (from + k) doc)"
  by (simp add: sliceString_def drop_take add.commute)

lemma slice_length: "length (sliceString doc from to) \<le> to - from"
  by (simp add: sliceString_def)

lemma decoration_sound:
  assumes "(s, e, i) \<in> set (buildDecorations doc [(from, to)])"
  shows "from \<le> s \<and> e \<le> to \<and> e = s + length (marker i) \<and> i \<noteq> [] \<and> list_all is_digit i
    \<and> sliceString doc s e = marker i"
proof -
  from assms obtain k m0 where k: "(k, m0, i) \<in> set (exec_loop 0 (sliceString doc from to))"
    and s: "s = from + k" and e: "e = from + k + length m0"
    unfolding buildDecorations_one by auto
  from exec_loop_sound[OF k, simplified] have m: "m0 = marker i" and n: "i \<noteq> []" and d: "list_all is_digit i"
    and p: "prefix m0 (drop k (sliceString doc from to))"
    and l: "k + length m0 \<le> length (sliceString doc from to)"
    by blast+
  from l slice_length[of doc "from" to] have b: "k + length m0 \<le> to - from"
    by simp
  have "0 < length m0"
    unfolding m by (simp add: marker_length)
  with b have t: "from + k + length m0 \<le> to"
    by arith
  from p have "prefix m0 (take (to - (from + k)) (drop (from + k) doc))"
    unfolding slice_drop .
  moreover have "prefix (take (to - (from + k)) (drop (from + k) doc)) (drop (from + k) doc)"
    by (rule take_is_prefix)
  ultimately have "prefix m0 (drop (from + k) doc)"
    by (rule prefix_order.trans)
  then have "take (length m0) (drop (from + k) doc) = m0"
    by (auto simp: prefix_def)
  then have "sliceString doc s e = m0"
    unfolding s e sliceString_def by simp
  with s e t m n d show ?thesis
    by simp
qed

lemma decoration_complete:
  assumes "from \<le> s" "s + length (marker i) \<le> to" "i \<noteq> []" "list_all is_digit i"
    "sliceString doc s (s + length (marker i)) = marker i"
  shows "(s, s + length (marker i), i) \<in> set (buildDecorations doc [(from, to)])"
proof -
  let ?k = "s - from"
  from assms(1) have s: "from + ?k = s"
    by simp
  from assms(5) have t: "take (length (marker i)) (drop s doc) = marker i"
    by (simp add: sliceString_def)
  from assms(2) have "min (length (marker i)) (to - s) = length (marker i)"
    by arith
  then have "take (length (marker i)) (take (to - s) (drop s doc)) = marker i"
    unfolding take_take using t by simp
  then have "prefix (marker i) (take (to - s) (drop s doc))"
    by (metis take_is_prefix)
  then have "prefix (marker i) (drop ?k (sliceString doc from to))"
    unfolding slice_drop s .
  from exec_loop_complete[OF this assms(3,4), of 0]
  have "(?k, marker i, i) \<in> set (exec_loop 0 (sliceString doc from to))"
    by simp
  then have "(from + ?k, from + ?k + length (marker i), i) \<in> set (buildDecorations doc [(from, to)])"
    unfolding buildDecorations_one by force
  then show ?thesis
    unfolding s .
qed

lemma decoration_sorted:
  "sorted_wrt (\<lambda>a b. fst (snd a) \<le> fst b) (buildDecorations doc [(from, to)])"
proof -
  have "sorted_wrt (\<lambda>a b. fst a + length (fst (snd a)) \<le> fst b) (exec_loop 0 (sliceString doc from to))"
    by (rule exec_loop_sorted)
  then show ?thesis
    unfolding buildDecorations_one sorted_wrt_map
    by (rule sorted_wrt_mono_rel[rotated]) auto
qed

text \<open>
  Claim C8. The scan of a visible range \<open>from\<close>, \<open>to\<close> of a document yields only matches
  of \<open>(fg:\<close>, one or more digits, \<open>)\<close> that lie in the range, each with its start and end
  offsets in the document and the digits as its id; it yields every such match that
  lies in the range; the matches come in order and do not overlap; and the ranges are
  scanned one after the other. Scanning \<open>start (fg:123)(fg:456) end\<close> yields exactly the
  two touching matches with the ids 123 and 456.
\<close>

theorem buildDecorations_scans:
  "(\<forall>s e i. (s, e, i) \<in> set (buildDecorations doc [(from, to)]) \<longrightarrow>
        from \<le> s \<and> e \<le> to \<and> e = s + length (marker i) \<and> i \<noteq> [] \<and> list_all is_digit i
        \<and> sliceString doc s e = marker i)
   \<and> (\<forall>s i. from \<le> s \<and> s + length (marker i) \<le> to \<and> i \<noteq> [] \<and> list_all is_digit i
          \<and> sliceString doc s (s + length (marker i)) = marker i
        \<longrightarrow> (s, s + length (marker i), i) \<in> set (buildDecorations doc [(from, to)]))
   \<and> sorted_wrt (\<lambda>a b. fst (snd a) \<le> fst b) (buildDecorations doc [(from, to)])
   \<and> buildDecorations doc (r # rs) = buildDecorations doc [r] @ buildDecorations doc rs
   \<and> buildDecorations ''start (fg:123)(fg:456) end'' [(0, 26)]
       = [(6, 14, ''123''), (14, 22, ''456'')]"
proof (intro conjI allI impI)
  fix s e i
  assume "(s, e, i) \<in> set (buildDecorations doc [(from, to)])"
  from decoration_sound[OF this]
  show "from \<le> s" "e \<le> to" "e = s + length (marker i)" "i \<noteq> []" "list_all is_digit i"
    "sliceString doc s e = marker i"
    by blast+
next
  fix s i
  assume "from \<le> s \<and> s + length (marker i) \<le> to \<and> i \<noteq> [] \<and> list_all is_digit i
          \<and> sliceString doc s (s + length (marker i)) = marker i"
  then show "(s, s + length (marker i), i) \<in> set (buildDecorations doc [(from, to)])"
    by (intro decoration_complete) blast+
next
  show "sorted_wrt (\<lambda>a b. fst (snd a) \<le> fst b) (buildDecorations doc [(from, to)])"
    by (rule decoration_sorted)
  show "buildDecorations doc (r # rs) = buildDecorations doc [r] @ buildDecorations doc rs"
    by (simp add: buildDecorations_def)
  show "buildDecorations ''start (fg:123)(fg:456) end'' [(0, 26)]
       = [(6, 14, ''123''), (14, 22, ''456'')]"
    by code_simp
qed

text \<open>
  The two markers of \<open>start (fg:123)(fg:456) end\<close> are found at the offsets 6 and 14,
  and what is found at the offset 6 ends at 14 with the id 123.
\<close>

theorem buildDecorations_scans_witness:
  "(6, 14, ''123'') \<in> set (buildDecorations ''start (fg:123)(fg:456) end'' [(0, 26)])
   \<and> (14, 22, ''456'') \<in> set (buildDecorations ''start (fg:123)(fg:456) end'' [(0, 26)])
   \<and> sliceString ''start (fg:123)(fg:456) end'' 6 14 = marker ''123''"
proof -
  let ?doc = "''start (fg:123)(fg:456) end''"
  note t = buildDecorations_scans[of ?doc 0 26]
  have 1: "(0::nat) \<le> 6 \<and> 6 + length (marker ''123'') \<le> (26::nat) \<and> ''123'' \<noteq> []
      \<and> list_all is_digit ''123'' \<and> sliceString ?doc 6 (6 + length (marker ''123'')) = marker ''123''"
    by code_simp
  have 2: "(0::nat) \<le> 14 \<and> 14 + length (marker ''456'') \<le> (26::nat) \<and> ''456'' \<noteq> []
      \<and> list_all is_digit ''456'' \<and> sliceString ?doc 14 (14 + length (marker ''456'')) = marker ''456''"
    by code_simp
  have l: "length (marker ''123'') = 8" "length (marker ''456'') = 8"
    by code_simp+
  from t 1 have a: "(6, 6 + length (marker ''123''), ''123'') \<in> set (buildDecorations ?doc [(0, 26)])"
    by blast
  from t 2 have b: "(14, 14 + length (marker ''456''), ''456'') \<in> set (buildDecorations ?doc [(0, 26)])"
    by blast
  from a have a': "(6, 14, ''123'') \<in> set (buildDecorations ?doc [(0, 26)])"
    unfolding l by simp
  from b have b': "(14, 22, ''456'') \<in> set (buildDecorations ?doc [(0, 26)])"
    unfolding l by simp
  from t a' have "sliceString ?doc 6 14 = marker ''123''"
    by blast
  with a' b' show ?thesis
    by blast
qed


section \<open>The claims document\<close>

lemma trim_keeps_first:
  assumes "\<not> is_space c"
  shows "prefix [c] (trim (c # r))"
proof -
  have "dropWhile is_space (c # r) = c # r"
    using assms by simp
  moreover have "dropWhile is_space (rev r @ [c]) = dropWhile is_space (rev r) @ [c]"
    using assms by (rule dropWhile_append3)
  ultimately have "trim (c # r) = c # rev (dropWhile is_space (rev r))"
    by (simp add: trim_def)
  then show ?thesis
    by simp
qed

text \<open>
  Claim C9, as amended. With no claims file the list of claims is empty. Otherwise the
  claims are read from the lines of the file in order: a line is recognized exactly
  when its text without the surrounding white space starts with \<open>-\<close>, every other line
  is ignored, every line that starts with \<open>- \<close> is recognized, and the claim of a
  recognized line that starts with \<open>- \<close> is the text after that prefix without the
  surrounding white space.
\<close>

theorem claims_of_bullets:
  "claims_of None = []
   \<and> (\<exists>f. (\<forall>r. f (''- '' @ r) = trim r)
        \<and> claims_of (Some doc)
          = map f (filter (\<lambda>l. prefix ''-'' (trim l)) (split_str doc [nl])))
   \<and> (\<forall>r. prefix ''-'' (trim (''- '' @ r)))"
proof (intro conjI allI)
  show "claims_of None = []"
    by (simp add: claims_of_def)
next
  let ?f = "\<lambda>l. trim (if prefix ''- '' l then drop 2 l else l)"
  show "\<exists>f. (\<forall>r. f (''- '' @ r) = trim r)
        \<and> claims_of (Some doc)
          = map f (filter (\<lambda>l. prefix ''-'' (trim l)) (split_str doc [nl]))"
  proof (rule exI[of _ ?f], rule conjI)
    show "\<forall>r. ?f (''- '' @ r) = trim r"
      by simp
    show "claims_of (Some doc)
        = map ?f (filter (\<lambda>l. prefix ''-'' (trim l)) (split_str doc [nl]))"
      by (simp add: claims_of_def)
  qed
next
  fix r
  have "\<not> is_space CHR ''-''"
    by (simp add: is_space_def)
  then have "prefix ''-'' (trim (CHR ''-'' # CHR '' '' # r))"
    by (rule trim_keeps_first)
  then show "prefix ''-'' (trim (''- '' @ r))"
    by simp
qed

text \<open>On a file of two bullets around a line of prose.\<close>

theorem claims_of_bullets_witness:
  "claims_of (Some (''- Claim A'' @ [nl] @ ''some prose'' @ [nl] @ ''- Claim B ''))
   = [''Claim A'', ''Claim B'']"
proof -
  let ?doc = "''- Claim A'' @ [nl] @ ''some prose'' @ [nl] @ ''- Claim B ''"
  from claims_of_bullets[of ?doc] obtain f where f: "\<And>r. f (''- '' @ r) = trim r"
    and c: "claims_of (Some ?doc)
      = map f (filter (\<lambda>l. prefix ''-'' (trim l)) (split_str ?doc [nl]))"
    by blast
  have l: "filter (\<lambda>l. prefix ''-'' (trim l)) (split_str ?doc [nl])
      = [''- '' @ ''Claim A'', ''- '' @ ''Claim B '']"
    by code_simp
  have t: "trim ''Claim A'' = ''Claim A''" "trim ''Claim B '' = ''Claim B''"
    by code_simp+
  show ?thesis
    unfolding c l by (simp only: list.map f t)
qed

text \<open>
  The claim as stated fails on a line that starts with \<open>-\<close> and no space, and on an
  indented bullet: both are recognized, and keep their hyphen.
\<close>

theorem claims_of_bullets_counterexample:
  "\<not> prefix ''- '' ''-foo'' \<and> \<not> prefix ''- '' ''  - bar''
   \<and> claims_of (Some (''-foo'' @ [nl] @ ''  - bar'' @ [nl] @ ''- baz''))
     = [''-foo'', ''- bar'', ''baz'']"
  by code_simp

end
